theory Spec2Isabelle
  imports Main "HOL-Library.AList" "HOL-Library.Word"
begin

chapter \<open>The model\<close>

section \<open>Cache: LRU tracking of table accesses (src/Cache.ts)\<close>

text \<open>
  The tracker is a JavaScript \<open>Map\<close> from table name to the time of the last access.
  A \<open>Map\<close> iterates in insertion order and \<open>set\<close> on a key that is present keeps its
  place, so it is modelled as an association list with \<open>AList.update\<close> and \<open>AList.delete\<close>.
  Times are the integers \<open>Date.now()\<close> returns; the clock is an explicit argument.
\<close>

record cache =
  cacheLimit :: nat
  tableAccessTimes :: "(string \<times> int) list"

definition trackTableAccess :: "int \<Rightarrow> string \<Rightarrow> cache \<Rightarrow> cache" where
  "trackTableAccess now tableName c =
     c\<lparr>tableAccessTimes := AList.update tableName now (tableAccessTimes c)\<rparr>"

text \<open>
  \<open>findTablesForEviction\<close>: the entries are sorted by access time (\<open>Array.prototype.sort\<close>
  is stable, as \<open>sort_key\<close> is), the first \<open>currentTableCount - cacheLimit\<close> names are
  taken, and each of them is deleted from the tracker.
\<close>

definition findTablesForEviction :: "nat \<Rightarrow> cache \<Rightarrow> string list \<times> cache" where
  "findTablesForEviction currentTableCount c =
     (if currentTableCount \<le> cacheLimit c then ([], c)
      else
        let evictionCount = currentTableCount - cacheLimit c;
            evictionCandidates =
              map fst (take evictionCount (sort_key snd (tableAccessTimes c)))
        in (evictionCandidates,
            c\<lparr>tableAccessTimes := fold AList.delete evictionCandidates (tableAccessTimes c)\<rparr>))"

text \<open>The access time the tracker holds for a table.\<close>

definition accessTime :: "(string \<times> int) list \<Rightarrow> string \<Rightarrow> int" where
  "accessTime ts name = (case map_of ts name of Some t \<Rightarrow> t | None \<Rightarrow> 0)"

section \<open>JavaScript values and records\<close>

text \<open>
  The value grammar of the store: \<open>null\<close>, booleans, numbers, strings, arrays, objects and
  dates. A number that passes the codec's test \<open>Number.isInteger(value) && -2147483648 <= value
  <= 2147483647\<close> is a \<open>VInt32\<close> (its two's complement bits); every other number is a
  \<open>VDouble\<close>, kept as the 64 bits of its IEEE representation, which is all the code below
  does with it. A date is the 64-bit millisecond count \<open>getTime()\<close> returns. A string is the
  list of its UTF-8 bytes. An object is the list of its own properties in \<open>Object.keys\<close>
  order. Two values have no term here: the number \<open>-0\<close>, which passes the codec's test and
  is written as the integer \<open>0\<close>, and a string with a lone surrogate, which has no UTF-8
  image.
\<close>

datatype jsval =
    VNull
  | VBool bool
  | VInt32 "32 word"
  | VDouble "64 word"
  | VString string
  | VArray "jsval list"
  | VObject "(string \<times> jsval) list"
  | VDate "64 word"

text \<open>
  The numeric properties of a record are JavaScript numbers that are integers in every
  state the code builds (versions, epoch milliseconds), except where a read of a missing
  property yields \<open>undefined\<close>, a decoded \<open>0\<close> expiration is replaced by \<open>null\<close>, or
  arithmetic on \<open>undefined\<close> yields \<open>NaN\<close>.
\<close>

datatype jsnum = Undefined | Null | NaN | Num int

text \<open>Truthiness, \<open>a || 0\<close>, \<open>a + 1\<close>, \<open>a !== b\<close>, \<open>n > a\<close>, \<open>a < n\<close> and \<open>a <= n\<close> on such numbers.\<close>

fun truthy :: "jsnum \<Rightarrow> bool" where
  "truthy (Num n) = (n \<noteq> 0)"
| "truthy _ = False"

fun or_zero :: "jsnum \<Rightarrow> int" where
  "or_zero (Num n) = n"
| "or_zero _ = 0"

fun js_succ :: "jsnum \<Rightarrow> jsnum" where
  "js_succ (Num n) = Num (n + 1)"
| "js_succ Null = Num 1"
| "js_succ _ = NaN"

fun strict_neq :: "jsnum \<Rightarrow> jsnum \<Rightarrow> bool" where
  "strict_neq NaN _ = True"
| "strict_neq _ NaN = True"
| "strict_neq a b = (a \<noteq> b)"

fun int_gt :: "int \<Rightarrow> jsnum \<Rightarrow> bool" where
  "int_gt n (Num a) = (n > a)"
| "int_gt n Null = (n > 0)"
| "int_gt n _ = False"

fun lt_int :: "jsnum \<Rightarrow> int \<Rightarrow> bool" where
  "lt_int (Num a) n = (a < n)"
| "lt_int Null n = (0 < n)"
| "lt_int _ n = False"

text \<open>
  A stored record is a JavaScript object. \<open>writeItem\<close> stores the literal
  \<open>{value, v, t, x}\<close>; the table decoder and the WAL replay store
  \<open>{value, version, timestamp, expiration}\<close>; \<open>getItem\<close> returns the latter shape. One
  record type holds all seven properties, and a property the object does not have reads as
  \<open>Undefined\<close>, as in JavaScript.
\<close>

record item =
  item_value :: jsval
  item_v :: jsnum
  item_t :: jsnum
  item_x :: jsnum
  item_version :: jsnum
  item_timestamp :: jsnum
  item_expiration :: jsnum

text \<open>The two object literals the code builds.\<close>

definition written_item :: "jsval \<Rightarrow> jsnum \<Rightarrow> jsnum \<Rightarrow> jsnum \<Rightarrow> item" where
  "written_item val ver tm ex =
     \<lparr>item_value = val, item_v = ver, item_t = tm, item_x = ex,
      item_version = Undefined, item_timestamp = Undefined, item_expiration = Undefined\<rparr>"

definition record_item :: "jsval \<Rightarrow> jsnum \<Rightarrow> jsnum \<Rightarrow> jsnum \<Rightarrow> item" where
  "record_item val ver tm ex =
     \<lparr>item_value = val, item_v = Undefined, item_t = Undefined, item_x = Undefined,
      item_version = ver, item_timestamp = tm, item_expiration = ex\<rparr>"

type_synonym table = "(string \<times> item) list"

section \<open>Query: filtered scans (class Query, and the options branch of Table.get)\<close>

text \<open>
  \<open>Query.query(table, filter, limit = 50)\<close>. A filter is either absent, a predicate on the
  value, or a filter expression that \<open>evaluateFilter\<close> decides; the model takes the predicate
  in both cases. \<open>records\<close> is a \<open>Map\<close> keyed by the table key. The parameter default
  applies when the caller passes \<open>undefined\<close>, here \<open>None\<close>; a limit is a count.
\<close>

definition matches :: "(jsval \<Rightarrow> bool) option \<Rightarrow> item \<Rightarrow> bool" where
  "matches flt v = (case flt of None \<Rightarrow> True | Some f \<Rightarrow> f (item_value v))"

fun query_loop ::
  "(jsval \<Rightarrow> bool) option \<Rightarrow> nat \<Rightarrow> table \<Rightarrow> (string \<times> jsval) list \<Rightarrow> (string \<times> jsval) list"
where
  "query_loop flt limit [] records = records"
| "query_loop flt limit ((k, v) # rest) records =
     (if matches flt v then
        let records' = AList.update k (item_value v) records
        in if limit \<noteq> 0 \<and> length records' \<ge> limit then records'
           else query_loop flt limit rest records'
      else query_loop flt limit rest records)"

definition query :: "table \<Rightarrow> (jsval \<Rightarrow> bool) option \<Rightarrow> nat option \<Rightarrow> jsval list" where
  "query tbl flt limit =
     map snd (query_loop flt (case limit of None \<Rightarrow> 50 | Some l \<Rightarrow> l) tbl [])"

text \<open>
  \<open>results.sort(options.sort)\<close> with a caller-supplied comparator, as a stable insertion
  sort driven by the comparator's sign.
\<close>

fun insert_by :: "('a \<Rightarrow> 'a \<Rightarrow> int) \<Rightarrow> 'a \<Rightarrow> 'a list \<Rightarrow> 'a list" where
  "insert_by cmp a [] = [a]"
| "insert_by cmp a (b # bs) =
     (if cmp a b \<le> 0 then a # b # bs else b # insert_by cmp a bs)"

definition js_sort :: "('a \<Rightarrow> 'a \<Rightarrow> int) \<Rightarrow> 'a list \<Rightarrow> 'a list" where
  "js_sort cmp as = foldr (insert_by cmp) as []"

record query_options =
  opt_filter :: "(jsval \<Rightarrow> bool) option"
  opt_sort :: "(jsval \<Rightarrow> jsval \<Rightarrow> int) option"
  opt_limit :: "nat option"
  opt_offset :: "nat option"

text \<open>
  The branch of \<open>Table.get\<close> taken when an options object is supplied, on the table map
  that \<open>getTable\<close> returns: query, optional sort, then the slice \<open>[start, end)\<close> with
  \<open>start = offset || 0\<close> and \<open>end = limit ? start + limit : undefined\<close>.
\<close>

definition get_with_options :: "table \<Rightarrow> query_options \<Rightarrow> jsval list" where
  "get_with_options tbl options =
     (let results = query tbl (opt_filter options) (opt_limit options);
          results = (case opt_sort options of None \<Rightarrow> results | Some cmp \<Rightarrow> js_sort cmp results)
      in if opt_offset options \<noteq> None \<or> opt_limit options \<noteq> None then
           let start = (case opt_offset options of None \<Rightarrow> 0 | Some n \<Rightarrow> n)
           in (case opt_limit options of
                 None \<Rightarrow> drop start results
               | Some l \<Rightarrow> if l \<noteq> 0 then take l (drop start results) else drop start results)
         else results)"

text \<open>
  An example table of 60 records: the key of record \<open>i\<close> is \<open>i + 1\<close> letters \<open>k\<close>, its value
  the number \<open>i\<close>.
\<close>

definition sixty_records :: table where
  "sixty_records =
     map (\<lambda>i. (replicate (Suc i) (CHR ''k''), written_item (VInt32 (of_nat i)) (Num 1) (Num 5) (Num 0)))
       [0..<60]"

section \<open>Write-ahead log (src/WriteAheadLog.ts)\<close>

text \<open>
  The WAL is a text file of lines
  \<open><timestamp> <op> <table> v:<version> x:<expiration> <key> <json>\<close>.
  The file is its content, or \<open>None\<close> while it does not exist. \<open>lastProcessedEntryCount\<close>
  is a \<open>Map\<close> from table name to a line count. The functions of the JavaScript library
  that the log relies on are parameters: \<open>Number\<close> on strings, \<open>JSON.parse\<close> (\<open>None\<close>
  when it throws) and \<open>JSON.stringify\<close>.
\<close>

record builtins =
  Number_of :: "string \<Rightarrow> jsnum"
  JSON_parse :: "string \<Rightarrow> jsval option"
  JSON_stringify :: "jsval \<Rightarrow> string"

record wal =
  walFile :: "string option"
  walBuffer :: "string list"
  maxWalBufferEntries :: nat
  maxWalBufferSize :: nat
  lastProcessedEntryCount :: "(string \<times> nat) list"

datatype db_error = NotFoundError | InvalidTableFileFormat | RangeError

text \<open>An operation that \<open>loadWAL\<close> returns; a key the line does not have is \<open>undefined\<close>.\<close>

datatype wal_operation =
    OpW (op_tableName: string) (op_key: "string option") (op_data: item)
  | OpD (op_tableName: string) (op_key: "string option")

subsection \<open>String helpers: \<open>trim\<close>, \<open>split\<close>, \<open>join\<close>, destructuring\<close>

definition is_space :: "char \<Rightarrow> bool" where
  "is_space c = (c \<in> set [CHR '' '', CHR 0x09, CHR 0x0A, CHR 0x0B, CHR 0x0C, CHR 0x0D])"

definition js_trim :: "string \<Rightarrow> string" where
  "js_trim str = rev (dropWhile is_space (rev (dropWhile is_space str)))"

fun split_on :: "char \<Rightarrow> string \<Rightarrow> string list" where
  "split_on sep [] = [[]]"
| "split_on sep (c # cs) =
     (if c = sep then [] # split_on sep cs
      else (case split_on sep cs of
              [] \<Rightarrow> [[c]]
            | w # ws \<Rightarrow> (c # w) # ws))"

fun join_with :: "char \<Rightarrow> string list \<Rightarrow> string" where
  "join_with sep [] = []"
| "join_with sep [w] = w"
| "join_with sep (w # ws) = w @ sep # join_with sep ws"

text \<open>The number that a string of decimal digits denotes, read from the left.\<close>

fun decimal_value :: "int \<Rightarrow> string \<Rightarrow> int option" where
  "decimal_value acc [] = Some acc"
| "decimal_value acc (c # cs) =
     (if 48 \<le> (of_char c :: int) \<and> (of_char c :: int) \<le> 57
      then decimal_value (10 * acc + (of_char c - 48)) cs
      else None)"

text \<open>An array element, \<open>undefined\<close> past the end.\<close>

definition element :: "'a list \<Rightarrow> nat \<Rightarrow> 'a option" where
  "element as i = (if i < length as then Some (as ! i) else None)"

text \<open>\<open>Number(s.split(':')[1])\<close>, where \<open>Number(undefined)\<close> is \<open>NaN\<close>.\<close>

definition number_after_colon :: "builtins \<Rightarrow> string \<Rightarrow> jsnum" where
  "number_after_colon B str =
     (case element (split_on CHR '':'' str) 1 of
        None \<Rightarrow> NaN
      | Some d \<Rightarrow> Number_of B d)"

text \<open>
  \<open>getJsonValueFromEntry\<close> and \<open>getJsonValue\<close> (utils): \<open>Some VNull\<close> is \<open>null\<close>, \<open>None\<close> is
  the \<open>undefined\<close> returned when \<open>JSON.parse\<close> throws.
\<close>

definition getJsonValue :: "builtins \<Rightarrow> string list \<Rightarrow> jsval option" where
  "getJsonValue B json = JSON_parse B (join_with CHR '' '' json)"

definition getJsonValueFromEntry :: "builtins \<Rightarrow> string list \<Rightarrow> string option \<Rightarrow> jsval option" where
  "getJsonValueFromEntry B json operation =
     (if operation = Some ''D'' then Some VNull
      else if json = [] \<or> join_with CHR '' '' json = ''null'' then Some VNull
      else getJsonValue B json)"

subsection \<open>\<open>loadWAL\<close>\<close>

text \<open>
  The argument \<open>table\<close> is optional; it counts as given when it is a non-empty string
  (\<open>if (table)\<close>). The cursor is read as \<open>lastProcessedEntryCount.get(table || '') || 0\<close>.
\<close>

definition table_given :: "string option \<Rightarrow> bool" where
  "table_given tbl = (case tbl of None \<Rightarrow> False | Some t \<Rightarrow> t \<noteq> [])"

definition lastPosition :: "string option \<Rightarrow> (string \<times> nat) list \<Rightarrow> nat" where
  "lastPosition tbl cur =
     (case map_of cur (case tbl of None \<Rightarrow> [] | Some t \<Rightarrow> t) of
        None \<Rightarrow> 0
      | Some n \<Rightarrow> n)"

text \<open>
  One iteration of the \<open>for\<close> loop over the log entries. \<open>Skip\<close> is \<open>continue\<close>; \<open>Thrown\<close> is
  the \<open>TypeError\<close> of calling \<open>split\<close> on a missing \<open>version\<close> or \<open>expiration\<close> token, which
  the surrounding \<open>try\<close> catches; \<open>Applied\<close> carries the new cursor and the operation pushed,
  if any. A line whose third token is missing has no fourth one either, so with no table
  given it reaches the \<open>version.split\<close> that throws.
\<close>

datatype entry_result =
    Skip
  | Thrown
  | Applied "(string \<times> nat) list" "wal_operation list"

definition entry_step ::
  "builtins \<Rightarrow> string option \<Rightarrow> int \<Rightarrow> nat \<Rightarrow> string \<Rightarrow> (string \<times> nat) list \<Rightarrow> entry_result"
where
  "entry_step B tbl now index entry cur =
     (if js_trim entry = [] then Skip
      else if table_given tbl \<and> index < lastPosition tbl cur then Skip
      else
        let parts = split_on CHR '' '' entry;
            operation = element parts 1;
            tableName = element parts 2;
            version = element parts 3;
            expiration = element parts 4;
            key = element parts 5;
            json = drop 6 parts
        in if table_given tbl \<and> tableName \<noteq> tbl then Skip
           else
             (case (tableName, version, expiration) of
                (Some tableName, Some version, Some expiration) \<Rightarrow>
                  let parsedVersion = number_after_colon B version;
                      parsedExpiration =
                        (if expiration = ''0'' then Null else number_after_colon B expiration)
                  in if truthy parsedExpiration \<and> lt_int parsedExpiration now then Skip
                     else
                       (case getJsonValueFromEntry B json operation of
                          None \<Rightarrow> Skip
                        | Some val \<Rightarrow>
                            let cur' =
                                  (case tbl of
                                     Some t \<Rightarrow>
                                       if table_given tbl then AList.update t (index + 1) cur
                                       else cur
                                   | None \<Rightarrow> cur)
                            in if operation = Some ''W'' then
                                 Applied cur'
                                   [OpW tableName key
                                      (record_item val parsedVersion (Num now) parsedExpiration)]
                               else if operation = Some ''D'' then
                                 Applied cur' [OpD tableName key]
                               else Applied cur' [])
              | _ \<Rightarrow> Thrown))"

fun loadWAL_loop ::
  "builtins \<Rightarrow> string option \<Rightarrow> int \<Rightarrow> nat \<Rightarrow> string list \<Rightarrow> (string \<times> nat) list \<Rightarrow>
   wal_operation list \<Rightarrow> wal_operation list \<times> (string \<times> nat) list"
where
  "loadWAL_loop B tbl now index [] cur operations = (operations, cur)"
| "loadWAL_loop B tbl now index (entry # rest) cur operations =
     (case entry_step B tbl now index entry cur of
        Skip \<Rightarrow> loadWAL_loop B tbl now (index + 1) rest cur operations
      | Thrown \<Rightarrow> (operations, cur)
      | Applied cur' new \<Rightarrow> loadWAL_loop B tbl now (index + 1) rest cur' (operations @ new))"

text \<open>
  \<open>loadWAL(table?)\<close>: \<open>NotFoundError\<close> when the file is missing, nothing for an empty file,
  else the loop over \<open>walData.trim().split('\n')\<close>.
\<close>

definition loadWAL ::
  "builtins \<Rightarrow> int \<Rightarrow> string option \<Rightarrow> wal \<Rightarrow> db_error + (wal_operation list \<times> wal)"
where
  "loadWAL B now tbl w =
     (case walFile w of
        None \<Rightarrow> Inl NotFoundError
      | Some walData \<Rightarrow>
          if length walData = 0 then Inr ([], w)
          else
            let logEntries = split_on CHR 0x0A (js_trim walData);
                (operations, cur) =
                  loadWAL_loop B tbl now 0 logEntries (lastProcessedEntryCount w) []
            in Inr (operations, w\<lparr>lastProcessedEntryCount := cur\<rparr>))"

subsection \<open>The operations a log records for a table\<close>

text \<open>
  What replay is to deliver, stated on the lines of the file without cursor, index or
  exception. A line records operations for table \<open>t\<close> at the clock \<open>now\<close> when it is not
  blank, its third token is \<open>t\<close>, it has not expired and its JSON parses: a write, a delete,
  or nothing for any other operation code. A line of table \<open>t\<close> is truncated when it ends
  before its expiration token. The replay of a file from a position is what the lines
  from that position on record, up to the first truncated line.
\<close>

definition recorded :: "builtins \<Rightarrow> int \<Rightarrow> string \<Rightarrow> string \<Rightarrow> wal_operation list" where
  "recorded B now t entry =
     (case split_on CHR '' '' entry of
        timestamp # operation # tableName # version # expiration # rest \<Rightarrow>
          let parsedExpiration =
                (if expiration = ''0'' then Null else number_after_colon B expiration)
          in if js_trim entry = [] \<or> tableName \<noteq> t
                \<or> (truthy parsedExpiration \<and> lt_int parsedExpiration now)
             then []
             else
               (case getJsonValueFromEntry B (drop 1 rest) (Some operation) of
                  None \<Rightarrow> []
                | Some val \<Rightarrow>
                    if operation = ''W'' then
                      [OpW t (element rest 0)
                         (record_item val (number_after_colon B version) (Num now)
                            parsedExpiration)]
                    else if operation = ''D'' then [OpD t (element rest 0)]
                    else [])
      | _ \<Rightarrow> [])"

definition truncated :: "string \<Rightarrow> string \<Rightarrow> bool" where
  "truncated t entry =
     (js_trim entry \<noteq> [] \<and> element (split_on CHR '' '' entry) 2 = Some t
      \<and> length (split_on CHR '' '' entry) < 5)"

definition replay :: "builtins \<Rightarrow> int \<Rightarrow> string \<Rightarrow> nat \<Rightarrow> string \<Rightarrow> wal_operation list" where
  "replay B now t position walData =
     (if walData = [] then []
      else concat (map (recorded B now t)
                     (takeWhile (\<lambda>entry. \<not> truncated t entry)
                        (drop position (split_on (CHR 0x0A) (js_trim walData))))))"

subsection \<open>An instance of the library functions, and a log\<close>

text \<open>
  An instance of the library functions for the examples: \<open>Number\<close> on strings of decimal
  digits (\<open>NaN\<close> otherwise), and \<open>JSON.parse\<close> and \<open>JSON.stringify\<close> on the literals
  \<open>null\<close>, \<open>true\<close> and \<open>false\<close>.
\<close>

definition example_builtins :: builtins where
  "example_builtins =
     \<lparr>Number_of = (\<lambda>str. case decimal_value 0 str of None \<Rightarrow> NaN | Some n \<Rightarrow> Num n),
      JSON_parse = (\<lambda>str. if str = ''null'' then Some VNull
                           else if str = ''true'' then Some (VBool True)
                           else if str = ''false'' then Some (VBool False)
                           else None),
      JSON_stringify = (\<lambda>v. case v of VBool True \<Rightarrow> ''true'' | VBool False \<Rightarrow> ''false''
                                     | _ \<Rightarrow> ''null'')\<rparr>"

definition example_wal :: wal where
  "example_wal =
     \<lparr>walFile = Some (''1 W users v:1 x:0 k1 true'' @ [CHR 0x0A] @
                      ''2 W other v:1 x:0 k2 null'' @ [CHR 0x0A] @
                      ''3 W users v:2 x:5 k3 null'' @ [CHR 0x0A] @
                      ''4 W users v:7 x:0 k4 {oops'' @ [CHR 0x0A] @
                      ''5 D users v:1 x:0 k1 null'' @ [CHR 0x0A] @
                      ''6 W other v:2 x:0 k2 null'' @ [CHR 0x0A]),
      walBuffer = [], maxWalBufferEntries = 100, maxWalBufferSize = 10485,
      lastProcessedEntryCount = []\<rparr>"

text \<open>
  A log whose second line ends after the table name, and a log of one write that expires
  at 5.
\<close>

definition truncated_wal :: wal where
  "truncated_wal =
     \<lparr>walFile = Some (''1 W users v:1 x:0 k1 true'' @ [CHR 0x0A] @
                      ''2 W users'' @ [CHR 0x0A] @
                      ''3 W users v:1 x:0 k3 true'' @ [CHR 0x0A]),
      walBuffer = [], maxWalBufferEntries = 100, maxWalBufferSize = 10485,
      lastProcessedEntryCount = []\<rparr>"

definition expiring_wal :: wal where
  "expiring_wal =
     \<lparr>walFile = Some (''1 W users v:1 x:5 k1 true'' @ [CHR 0x0A]),
      walBuffer = [], maxWalBufferEntries = 100, maxWalBufferSize = 10485,
      lastProcessedEntryCount = []\<rparr>"

section \<open>Persistence: the binary table codec (class Persistence)\<close>

text \<open>
  A \<open>Buffer\<close> is a list of bytes. The \<open>write...LE\<close> methods of a Node buffer throw a
  \<open>RangeError\<close> when the value does not fit the field; the \<open>read...LE\<close> methods throw one
  when the field does not lie inside the buffer; \<open>buffer[i]\<close> is \<open>undefined\<close> and
  \<open>toString\<close> and \<open>slice\<close> clamp outside it. A string is taken to be valid UTF-8, so that
  \<open>Buffer.from(s, 'utf8')\<close> and \<open>toString('utf8')\<close> map characters and bytes one to one.
\<close>

type_synonym byte = "8 word"

type_synonym buffer = "byte list"

fun le_bytes :: "nat \<Rightarrow> nat \<Rightarrow> buffer" where
  "le_bytes 0 n = []"
| "le_bytes (Suc k) n = of_nat (n mod 256) # le_bytes k (n div 256)"

fun le_value :: "buffer \<Rightarrow> nat" where
  "le_value [] = 0"
| "le_value (b # bs) = unat b + 256 * le_value bs"

definition writeUIntLE :: "nat \<Rightarrow> int \<Rightarrow> db_error + buffer" where
  "writeUIntLE k n =
     (if 0 \<le> n \<and> n < 2 ^ (8 * k) then Inr (le_bytes k (nat n)) else Inl RangeError)"

definition readUIntLE :: "nat \<Rightarrow> buffer \<Rightarrow> nat \<Rightarrow> db_error + nat" where
  "readUIntLE k buf off =
     (if off + k \<le> length buf then Inr (le_value (take k (drop off buf))) else Inl RangeError)"

definition byte_of_char :: "char \<Rightarrow> byte" where
  "byte_of_char c = of_nat (of_char c)"

definition char_of_byte :: "byte \<Rightarrow> char" where
  "char_of_byte b = char_of (unat b)"

definition utf8 :: "string \<Rightarrow> buffer" where
  "utf8 str = map byte_of_char str"

definition slice :: "buffer \<Rightarrow> nat \<Rightarrow> nat \<Rightarrow> buffer" where
  "slice buf start fin = take (fin - start) (drop start buf)"

definition toString :: "buffer \<Rightarrow> nat \<Rightarrow> nat \<Rightarrow> string" where
  "toString buf start fin = map char_of_byte (slice buf start fin)"

subsection \<open>\<open>encodeValue\<close>\<close>

text \<open>
  The loops over the items of an array and over the keys of an object are the functions
  \<open>encodeItems\<close> and \<open>encodeProps\<close>. \<open>undefined\<close> and values outside the grammar (which
  the code turns into \<open>null\<close> and into their \<open>String\<close>) are not values of \<open>jsval\<close>.
\<close>

fun encodeValue :: "jsval \<Rightarrow> db_error + buffer"
  and encodeItems :: "jsval list \<Rightarrow> db_error + buffer"
  and encodeProps :: "(string \<times> jsval) list \<Rightarrow> db_error + buffer"
where
  "encodeValue VNull = Inr [0x00]"
| "encodeValue (VBool b) = Inr [0x01, if b then 0x01 else 0x00]"
| "encodeValue (VInt32 w) = Inr (0x02 # le_bytes 4 (unat w))"
| "encodeValue (VDouble w) = Inr (0x03 # le_bytes 8 (unat w))"
| "encodeValue (VString str) =
     (let strBuf = utf8 str
      in case writeUIntLE 4 (int (length strBuf)) of
           Inl e \<Rightarrow> Inl e
         | Inr len \<Rightarrow> Inr (0x04 # len @ strBuf))"
| "encodeValue (VArray items) =
     (case writeUIntLE 4 (int (length items)) of
        Inl e \<Rightarrow> Inl e
      | Inr cnt \<Rightarrow>
          (case encodeItems items of
             Inl e \<Rightarrow> Inl e
           | Inr encodedItems \<Rightarrow> Inr (0x05 # cnt @ encodedItems)))"
| "encodeValue (VObject props) =
     (case writeUIntLE 4 (int (length props)) of
        Inl e \<Rightarrow> Inl e
      | Inr cnt \<Rightarrow>
          (case encodeProps props of
             Inl e \<Rightarrow> Inl e
           | Inr encodedItems \<Rightarrow> Inr (0x06 # cnt @ encodedItems)))"
| "encodeValue (VDate w) = Inr (0x07 # le_bytes 8 (unat w))"
| "encodeItems [] = Inr []"
| "encodeItems (v # vs) =
     (case encodeValue v of
        Inl e \<Rightarrow> Inl e
      | Inr b \<Rightarrow> (case encodeItems vs of Inl e \<Rightarrow> Inl e | Inr bs \<Rightarrow> Inr (b @ bs)))"
| "encodeProps [] = Inr []"
| "encodeProps (p # ps) =
     (let keyBuf = utf8 (fst p)
      in case writeUIntLE 2 (int (length keyBuf)) of
           Inl e \<Rightarrow> Inl e
         | Inr keyLenBuf \<Rightarrow>
             (case encodeValue (snd p) of
                Inl e \<Rightarrow> Inl e
              | Inr b \<Rightarrow>
                  (case encodeProps ps of
                     Inl e \<Rightarrow> Inl e
                   | Inr bs \<Rightarrow> Inr (keyLenBuf @ keyBuf @ b @ bs))))"

subsection \<open>Property assignment on a plain object\<close>

text \<open>
  \<open>obj[key] = value\<close> on an object that started as \<open>{}\<close>. An assignment to \<open>__proto__\<close>
  creates no own property: it sets the prototype when the value is an object or \<open>null\<close>
  and is ignored otherwise (the prototype is not part of a \<open>jsval\<close>; only on an object
  that an earlier such assignment has cut off from \<open>Object.prototype\<close> would a second
  \<open>__proto__\<close> key become an own property, and an encoded object has each key once). A key
  that is present keeps its place. A new key that is an array index, the canonical decimal
  form of an integer from 0 to \<open>2^32 - 2\<close>, goes among the index keys in ascending order,
  which precede all other keys; any other new key goes to the end. \<open>key_order\<close> says that a
  list of keys stands in this order, the one \<open>Object.keys\<close> returns.
\<close>

definition array_index :: "string \<Rightarrow> int option" where
  "array_index key =
     (if key = [] \<or> (hd key = CHR ''0'' \<and> key \<noteq> ''0'') then None
      else (case decimal_value 0 key of
              None \<Rightarrow> None
            | Some n \<Rightarrow> if n \<le> 4294967294 then Some n else None))"

fun insert_index :: "int \<Rightarrow> string \<times> jsval \<Rightarrow> (string \<times> jsval) list \<Rightarrow> (string \<times> jsval) list" where
  "insert_index n p [] = [p]"
| "insert_index n p (q # qs) =
     (case array_index (fst q) of
        None \<Rightarrow> p # q # qs
      | Some m \<Rightarrow> if n < m then p # q # qs else q # insert_index n p qs)"

definition assign :: "string \<Rightarrow> jsval \<Rightarrow> (string \<times> jsval) list \<Rightarrow> (string \<times> jsval) list" where
  "assign key val obj =
     (if key = ''__proto__'' then obj
      else if key \<in> fst ` set obj then AList.update key val obj
      else (case array_index key of
              None \<Rightarrow> obj @ [(key, val)]
            | Some n \<Rightarrow> insert_index n (key, val) obj))"

fun key_order :: "string list \<Rightarrow> bool" where
  "key_order (k # k' # ks) =
     ((case array_index k' of
         None \<Rightarrow> True
       | Some n \<Rightarrow> (case array_index k of None \<Rightarrow> False | Some m \<Rightarrow> m < n))
      \<and> key_order (k' # ks))"
| "key_order ks = True"

subsection \<open>\<open>decodeValueWithSize\<close> and \<open>decodeValue\<close>\<close>

text \<open>
  \<open>decodeValueWithSize(buffer, startOffset)\<close> returns the value and the number of bytes
  read. Its two \<open>for\<close> loops are \<open>decodeArrayItems\<close> and \<open>decodeObjectProps\<close>, which count
  the remaining iterations down and return the filled array or object with the offset
  reached. An unknown type byte is logged and read as \<open>null\<close> of size 1.
\<close>

function decodeValueWithSize :: "buffer \<Rightarrow> nat \<Rightarrow> db_error + (jsval \<times> nat)"
  and decodeArrayItems ::
    "buffer \<Rightarrow> nat \<Rightarrow> nat \<Rightarrow> jsval list \<Rightarrow> db_error + (jsval list \<times> nat)"
  and decodeObjectProps ::
    "buffer \<Rightarrow> nat \<Rightarrow> nat \<Rightarrow> (string \<times> jsval) list \<Rightarrow> db_error + ((string \<times> jsval) list \<times> nat)"
where
  "decodeValueWithSize buf startOffset =
     (if startOffset \<ge> length buf then Inr (VNull, 0)
      else
        let type = buf ! startOffset
        in if type = 0x00 then Inr (VNull, 1)
           else if type = 0x01 then Inr (VBool (element buf (startOffset + 1) = Some 0x01), 2)
           else if type = 0x02 then
             (case readUIntLE 4 buf (startOffset + 1) of
                Inl e \<Rightarrow> Inl e
              | Inr n \<Rightarrow> Inr (VInt32 (of_nat n), 5))
           else if type = 0x03 then
             (case readUIntLE 8 buf (startOffset + 1) of
                Inl e \<Rightarrow> Inl e
              | Inr n \<Rightarrow> Inr (VDouble (of_nat n), 9))
           else if type = 0x04 then
             (case readUIntLE 4 buf (startOffset + 1) of
                Inl e \<Rightarrow> Inl e
              | Inr len \<Rightarrow>
                  Inr (VString (toString buf (startOffset + 5) (startOffset + 5 + len)), 5 + len))
           else if type = 0x05 then
             (case readUIntLE 4 buf (startOffset + 1) of
                Inl e \<Rightarrow> Inl e
              | Inr count \<Rightarrow>
                  (case decodeArrayItems buf (startOffset + 5) count [] of
                     Inl e \<Rightarrow> Inl e
                   | Inr r \<Rightarrow> Inr (VArray (fst r), snd r - startOffset)))
           else if type = 0x06 then
             (case readUIntLE 4 buf (startOffset + 1) of
                Inl e \<Rightarrow> Inl e
              | Inr count \<Rightarrow>
                  (case decodeObjectProps buf (startOffset + 5) count [] of
                     Inl e \<Rightarrow> Inl e
                   | Inr r \<Rightarrow> Inr (VObject (fst r), snd r - startOffset)))
           else if type = 0x07 then
             (case readUIntLE 8 buf (startOffset + 1) of
                Inl e \<Rightarrow> Inl e
              | Inr n \<Rightarrow> Inr (VDate (of_nat n), 9))
           else Inr (VNull, 1))"
| "decodeArrayItems buf offset remaining array =
     (if remaining = 0 then Inr (array, offset)
      else
        (case decodeValueWithSize buf offset of
           Inl e \<Rightarrow> Inl e
         | Inr r \<Rightarrow> decodeArrayItems buf (offset + snd r) (remaining - 1) (array @ [fst r])))"
| "decodeObjectProps buf offset remaining obj =
     (if remaining = 0 then Inr (obj, offset)
      else
        (case readUIntLE 2 buf offset of
           Inl e \<Rightarrow> Inl e
         | Inr keyLength \<Rightarrow>
             let key = toString buf (offset + 2) (offset + 2 + keyLength);
                 offset' = offset + 2 + keyLength
             in (case decodeValueWithSize buf offset' of
                   Inl e \<Rightarrow> Inl e
                 | Inr r \<Rightarrow>
                     decodeObjectProps buf (offset' + snd r) (remaining - 1)
                       (assign key (fst r) obj))))"
  by pat_completeness auto

termination
  by (relation "inv_image (less_than <*lex*> less_than)
        (\<lambda>x. case x of
           Inl (buf, start) \<Rightarrow> (length buf - start, 0)
         | Inr (Inl (buf, off, remaining, acc)) \<Rightarrow> (length buf - off, Suc remaining)
         | Inr (Inr (buf, off, remaining, acc)) \<Rightarrow> (length buf - off, Suc remaining))")
     auto

declare decodeValueWithSize.simps [simp del]

declare decodeArrayItems.simps [simp del]

declare decodeObjectProps.simps [simp del]

text \<open>\<open>decodeValue(buffer)\<close>, the entry point on the slice that holds one value.\<close>

definition decodeValue :: "buffer \<Rightarrow> db_error + jsval" where
  "decodeValue buf =
     (if length buf = 0 then Inr VNull
      else
        let type = buf ! 0
        in if type = 0x00 then Inr VNull
           else if type = 0x01 then Inr (VBool (element buf 1 = Some 0x01))
           else if type = 0x02 then
             (case readUIntLE 4 buf 1 of Inl e \<Rightarrow> Inl e | Inr n \<Rightarrow> Inr (VInt32 (of_nat n)))
           else if type = 0x03 then
             (case readUIntLE 8 buf 1 of Inl e \<Rightarrow> Inl e | Inr n \<Rightarrow> Inr (VDouble (of_nat n)))
           else if type = 0x04 then
             (case readUIntLE 4 buf 1 of
                Inl e \<Rightarrow> Inl e
              | Inr len \<Rightarrow> Inr (VString (toString buf 5 (5 + len))))
           else if type = 0x05 then
             (case readUIntLE 4 buf 1 of
                Inl e \<Rightarrow> Inl e
              | Inr count \<Rightarrow>
                  (case decodeArrayItems buf 5 count [] of
                     Inl e \<Rightarrow> Inl e
                   | Inr r \<Rightarrow> Inr (VArray (fst r))))
           else if type = 0x06 then
             (case readUIntLE 4 buf 1 of
                Inl e \<Rightarrow> Inl e
              | Inr count \<Rightarrow>
                  (case decodeObjectProps buf 5 count [] of
                     Inl e \<Rightarrow> Inl e
                   | Inr r \<Rightarrow> Inr (VObject (fst r))))
           else if type = 0x07 then
             (case readUIntLE 8 buf 1 of Inl e \<Rightarrow> Inl e | Inr n \<Rightarrow> Inr (VDate (of_nat n)))
           else Inr VNull)"

subsection \<open>\<open>readTableFromBinaryBuffer\<close> and \<open>toBinaryBuffer\<close>\<close>

text \<open>
  The record loop \<open>for (i = 0; i < recordCount && offset + 26 <= buffer.length; i++)\<close>, with
  the remaining iterations counted down. A record that does not fit the buffer ends the
  loop (\<open>break\<close>); a record whose expiration is set and not after \<open>now\<close> is stepped over
  (\<open>continue\<close>); every other record is decoded and stored as
  \<open>{value, version, timestamp, expiration: expiration || null}\<close>.
\<close>

fun readRecords :: "int \<Rightarrow> buffer \<Rightarrow> nat \<Rightarrow> nat \<Rightarrow> table \<Rightarrow> db_error + table" where
  "readRecords now buf 0 offset tableData = Inr tableData"
| "readRecords now buf (Suc remaining) offset tableData =
     (if \<not> offset + 26 \<le> length buf then Inr tableData
      else
        (case readUIntLE 2 buf offset of Inl e \<Rightarrow> Inl e | Inr keyLength \<Rightarrow>
        (case readUIntLE 4 buf (offset + 2) of Inl e \<Rightarrow> Inl e | Inr valueLength \<Rightarrow>
        (case readUIntLE 4 buf (offset + 6) of Inl e \<Rightarrow> Inl e | Inr version \<Rightarrow>
        (case readUIntLE 8 buf (offset + 10) of Inl e \<Rightarrow> Inl e | Inr timestamp \<Rightarrow>
        (case readUIntLE 8 buf (offset + 18) of Inl e \<Rightarrow> Inl e | Inr expiration \<Rightarrow>
           let offset' = offset + 26
           in if offset' + keyLength + valueLength > length buf then Inr tableData
              else if expiration \<noteq> 0 \<and> int expiration \<le> now then
                readRecords now buf remaining (offset' + keyLength + valueLength) tableData
              else
                let key = toString buf offset' (offset' + keyLength);
                    valueBuffer =
                      slice buf (offset' + keyLength) (offset' + keyLength + valueLength)
                in (case decodeValue valueBuffer of
                      Inl e \<Rightarrow> Inl e
                    | Inr val \<Rightarrow>
                        readRecords now buf remaining (offset' + keyLength + valueLength)
                          (AList.update key
                             (record_item val (Num (int version)) (Num (int timestamp))
                                (if expiration = 0 then Null else Num (int expiration)))
                             tableData))))))))"

definition readTableFromBinaryBuffer :: "int \<Rightarrow> buffer \<Rightarrow> db_error + table" where
  "readTableFromBinaryBuffer now buf =
     (if length buf < 8 \<or> element buf 0 \<noteq> Some 0x4d \<or> element buf 1 \<noteq> Some 0x44
         \<or> element buf 2 \<noteq> Some 0x42 \<or> element buf 3 \<noteq> Some 0x01
      then Inl InvalidTableFileFormat
      else
        (case readUIntLE 4 buf 4 of
           Inl e \<Rightarrow> Inl e
         | Inr recordCount \<Rightarrow> readRecords now buf recordCount 8 []))"

text \<open>
  \<open>toBinaryBuffer\<close>: header, record count, then for each entry the five fixed-width fields
  (with \<open>record.version || 0\<close>, \<open>record.timestamp || 0\<close>, \<open>record.expiration || 0\<close>), the key
  and the encoded value. Every key of a \<open>table\<close> is a string, so no entry is filtered out.
\<close>

fun encodeRecords :: "table \<Rightarrow> db_error + buffer" where
  "encodeRecords [] = Inr []"
| "encodeRecords (entry # rest) =
     (let keyBuffer = utf8 (fst entry); record = snd entry
      in (case encodeValue (item_value record) of Inl e \<Rightarrow> Inl e | Inr valueBuffer \<Rightarrow>
         (case writeUIntLE 2 (int (length keyBuffer)) of Inl e \<Rightarrow> Inl e | Inr keyLenBuffer \<Rightarrow>
         (case writeUIntLE 4 (int (length valueBuffer)) of Inl e \<Rightarrow> Inl e | Inr valueLenBuffer \<Rightarrow>
         (case writeUIntLE 4 (or_zero (item_version record)) of Inl e \<Rightarrow> Inl e | Inr versionBuffer \<Rightarrow>
         (case writeUIntLE 8 (or_zero (item_timestamp record)) of Inl e \<Rightarrow> Inl e | Inr timestampBuffer \<Rightarrow>
         (case writeUIntLE 8 (or_zero (item_expiration record)) of Inl e \<Rightarrow> Inl e | Inr expirationBuffer \<Rightarrow>
         (case encodeRecords rest of Inl e \<Rightarrow> Inl e | Inr chunks \<Rightarrow>
            Inr (keyLenBuffer @ valueLenBuffer @ versionBuffer @ timestampBuffer
                 @ expirationBuffer @ keyBuffer @ valueBuffer @ chunks)))))))))"

definition toBinaryBuffer :: "table \<Rightarrow> db_error + buffer" where
  "toBinaryBuffer tableData =
     (case writeUIntLE 4 (int (length tableData)) of
        Inl e \<Rightarrow> Inl e
      | Inr countBuffer \<Rightarrow>
          (case encodeRecords tableData of
             Inl e \<Rightarrow> Inl e
           | Inr chunks \<Rightarrow> Inr ([0x4d, 0x44, 0x42, 0x01] @ countBuffer @ chunks)))"

subsection \<open>Well-formed values\<close>

text \<open>
  A value of the grammar: an object has each property name once, in \<open>Object.keys\<close> order,
  and none of its own properties is named \<open>__proto__\<close>.
\<close>

fun wf_value :: "jsval \<Rightarrow> bool"
  and wf_values :: "jsval list \<Rightarrow> bool"
  and wf_props :: "(string \<times> jsval) list \<Rightarrow> bool"
where
  "wf_value (VArray vs) = wf_values vs"
| "wf_value (VObject ps) =
     (distinct (map fst ps) \<and> ''__proto__'' \<notin> fst ` set ps \<and> key_order (map fst ps)
      \<and> wf_props ps)"
| "wf_value v = True"
| "wf_values [] = True"
| "wf_values (v # vs) = (wf_value v \<and> wf_values vs)"
| "wf_props [] = True"
| "wf_props (p # ps) = (wf_value (snd p) \<and> wf_props ps)"

subsection \<open>Table records, and the table a file decodes to\<close>

text \<open>
  The records the round trip is stated for: objects \<open>{value, version, timestamp,
  expiration}\<close> whose version and timestamp are numbers and whose expiration is a number or
  \<open>null\<close>. A record counts as elapsed at \<open>now\<close> when its expiration is set and not after
  \<open>now\<close>. The decoder reads an expiration of \<open>0\<close> back as \<open>null\<close>.
\<close>

fun is_num :: "jsnum \<Rightarrow> bool" where
  "is_num (Num n) = True"
| "is_num _ = False"

definition table_record :: "item \<Rightarrow> bool" where
  "table_record r =
     (item_v r = Undefined \<and> item_t r = Undefined \<and> item_x r = Undefined
      \<and> is_num (item_version r) \<and> is_num (item_timestamp r)
      \<and> (item_expiration r = Null \<or> is_num (item_expiration r))
      \<and> wf_value (item_value r))"

definition elapsed :: "int \<Rightarrow> item \<Rightarrow> bool" where
  "elapsed now r = (or_zero (item_expiration r) \<noteq> 0 \<and> or_zero (item_expiration r) \<le> now)"

definition none_as_null :: "item \<Rightarrow> item" where
  "none_as_null r =
     r\<lparr>item_expiration := (if or_zero (item_expiration r) = 0 then Null else item_expiration r)\<rparr>"

definition decoded_table :: "int \<Rightarrow> table \<Rightarrow> table" where
  "decoded_table now T =
     map (\<lambda>e. (fst e, none_as_null (snd e))) (filter (\<lambda>e. \<not> elapsed now (snd e)) T)"

text \<open>
  An example table and its file. The value of record \<open>b\<close>, which expires at 7, is an object
  with the index keys 2 and 10 before its other keys.
\<close>

definition example_object :: jsval where
  "example_object =
     VObject [(''2'', VInt32 7), (''10'', VNull), (''b'', VBool False), (''a'', VString ''x'')]"

definition example_table :: table where
  "example_table =
     [(''a'', record_item (VArray [VBool True, VString ''x'']) (Num 1) (Num 5) Null),
      (''b'', record_item example_object (Num 2) (Num 6) (Num 7))]"

definition example_table_file :: buffer where
  "example_table_file =
     [77, 68, 66, 1, 2, 0, 0, 0,
      1, 0, 13, 0, 0, 0, 1, 0, 0, 0, 5, 0, 0, 0, 0, 0, 0, 0, 0, 0, 0, 0, 0, 0, 0, 0,
      97, 5, 2, 0, 0, 0, 1, 1, 4, 1, 0, 0, 0, 120,
      1, 0, 32, 0, 0, 0, 2, 0, 0, 0, 6, 0, 0, 0, 0, 0, 0, 0, 7, 0, 0, 0, 0, 0, 0, 0,
      98, 6, 4, 0, 0, 0, 1, 0, 50, 2, 7, 0, 0, 0, 2, 0, 49, 48, 0, 1, 0, 98, 1, 0,
      1, 0, 97, 4, 1, 0, 0, 0, 120]"

subsection \<open>A file with an unknown type byte\<close>

definition unknown_tag_file :: buffer where
  "unknown_tag_file =
     [77, 68, 66, 1, 1, 0, 0, 0,
      1, 0, 1, 0, 0, 0, 1, 0, 0, 0, 1, 0, 0, 0, 0, 0, 0, 0, 0, 0, 0, 0, 0, 0, 0, 0,
      107, 9]"

section \<open>The WAL write path: \<open>flushWAL\<close> and \<open>appendToWAL\<close>\<close>

text \<open>
  Numbers interpolated into a log line are printed in decimal; \<open>NaN\<close>, \<open>null\<close> and
  \<open>undefined\<close> print as those words.
\<close>

function show_nat :: "nat \<Rightarrow> string" where
  "show_nat n =
     (if n < 10 then [char_of (48 + n)]
      else show_nat (n div 10) @ [char_of (48 + n mod 10)])"
  by pat_completeness auto

termination
  by (relation "measure id") auto

declare show_nat.simps [simp del]

definition show_int :: "int \<Rightarrow> string" where
  "show_int i = (if i < 0 then CHR ''-'' # show_nat (nat (- i)) else show_nat (nat i))"

fun show_jsnum :: "jsnum \<Rightarrow> string" where
  "show_jsnum (Num n) = show_int n"
| "show_jsnum NaN = ''NaN''"
| "show_jsnum Null = ''null''"
| "show_jsnum Undefined = ''undefined''"

text \<open>
  \<open>flushWAL\<close> appends the buffered entries to the file and empties the buffer; a failing
  \<open>appendFile\<close> and the checkpoint callback, which is only scheduled with \<open>setImmediate\<close>,
  are outside the model.
\<close>

definition flushWAL :: "wal \<Rightarrow> db_error + wal" where
  "flushWAL w =
     (case walFile w of
        None \<Rightarrow> Inl NotFoundError
      | Some content \<Rightarrow>
          if length (walBuffer w) = 0 then Inr w
          else
            let bufferToFlush = walBuffer w
            in Inr (w\<lparr>walBuffer := [], walFile := Some (content @ concat bufferToFlush)\<rparr>))"

definition logEntry ::
  "builtins \<Rightarrow> int \<Rightarrow> string \<Rightarrow> string \<Rightarrow> string \<Rightarrow> jsval \<Rightarrow> jsnum \<Rightarrow> int \<Rightarrow> string"
where
  "logEntry B timestamp tableName operation ky val version expiration =
     show_int timestamp @ '' '' @ operation @ '' '' @ tableName @ '' v:'' @ show_jsnum version
     @ '' x:'' @ show_int expiration @ '' '' @ ky @ '' '' @ JSON_stringify B val @ [CHR 0x0A]"

definition appendToWAL ::
  "builtins \<Rightarrow> int \<Rightarrow> string \<Rightarrow> string \<Rightarrow> string \<Rightarrow> jsval \<Rightarrow> jsnum \<Rightarrow> int \<Rightarrow> wal \<Rightarrow> db_error + wal"
where
  "appendToWAL B now tableName operation ky val version expiration w =
     (case walFile w of
        None \<Rightarrow> Inl NotFoundError
      | Some content \<Rightarrow>
          let w1 = w\<lparr>walBuffer :=
                      walBuffer w @ [logEntry B now tableName operation ky val version expiration]\<rparr>
          in (case (if length (walBuffer w1) \<ge> maxWalBufferEntries w1 then flushWAL w1
                    else Inr w1) of
                Inl e \<Rightarrow> Inl e
              | Inr w2 \<Rightarrow>
                  let estimatedBufferSize = sum_list (map length (walBuffer w2))
                  in if estimatedBufferSize \<ge> maxWalBufferSize w2 then flushWAL w2
                     else Inr w2))"

text \<open>Everything appended to the log so far: the file followed by the buffered entries.\<close>

definition wal_contents :: "wal \<Rightarrow> string" where
  "wal_contents w = (case walFile w of None \<Rightarrow> [] | Some content \<Rightarrow> content) @ concat (walBuffer w)"

section \<open>Table: the in-memory tables and the write path (src/Table.ts)\<close>

text \<open>
  The state of a \<open>Table\<close> object: the loaded tables (\<open>data\<close>, a \<open>Map\<close> of \<open>Map\<close>s), the
  WAL, the write buffer, and the table files of the database directory. The write buffer
  holds \<open>JSON.stringify({tableName, key, record})\<close> strings; the model keeps the triple.
  Encryption (class \<open>Encryption\<close>) is a parameter: \<open>decryptFile\<close> and \<open>encryptFile\<close> take
  the key and the file image and return \<open>None\<close> when any step of the \<open>try\<close> block throws.
  Access tracking for the cache and the emission of events do not touch this state and
  are left out.
\<close>

record crypto =
  encryptionKey :: "string option"
  decryptFile :: "string \<Rightarrow> buffer \<Rightarrow> buffer option"
  encryptFile :: "string \<Rightarrow> buffer \<Rightarrow> buffer option"

record db =
  data :: "(string \<times> table) list"
  wal :: wal
  writeBuffer :: "(string \<times> string \<times> item option) list"
  files :: "(string \<times> buffer) list"
  maxWriteOpsBeforeFlush :: nat

definition hasTable :: "(string \<times> table) list \<Rightarrow> string \<Rightarrow> bool" where
  "hasTable d tableName = (map_of d tableName \<noteq> None)"

definition createTable :: "string \<Rightarrow> (string \<times> table) list \<Rightarrow> (string \<times> table) list" where
  "createTable tableName d = (if \<not> hasTable d tableName then AList.update tableName [] d else d)"

definition getTable :: "(string \<times> table) list \<Rightarrow> string \<Rightarrow> table" where
  "getTable d tableName = (case map_of d tableName of None \<Rightarrow> [] | Some tbl \<Rightarrow> tbl)"

subsection \<open>\<open>loadTable\<close>\<close>

text \<open>
  The buffer handed to the decoder: the decrypted image when a key is configured, the
  file is not empty and starts with byte 1, and decryption succeeds; the file itself
  otherwise (a failed decryption is only logged).
\<close>

definition fileBuffer :: "crypto \<Rightarrow> buffer \<Rightarrow> buffer" where
  "fileBuffer C encryptedBuffer =
     (case encryptionKey C of
        None \<Rightarrow> encryptedBuffer
      | Some k \<Rightarrow>
          if length encryptedBuffer > 0 \<and> element encryptedBuffer 0 = Some 1 then
            (case decryptFile C k encryptedBuffer of
               None \<Rightarrow> encryptedBuffer
             | Some decrypted \<Rightarrow> decrypted)
          else encryptedBuffer)"

definition loadTable ::
  "crypto \<Rightarrow> int \<Rightarrow> (string \<times> buffer) list \<Rightarrow> string \<Rightarrow> (string \<times> table) list \<Rightarrow>
   db_error + (string \<times> table) list"
where
  "loadTable C now fs tableName d =
     (if hasTable d tableName then Inr d
      else
        (case map_of fs tableName of
           None \<Rightarrow> Inr (createTable tableName d)
         | Some encryptedBuffer \<Rightarrow>
             if length encryptedBuffer < 8 then Inr (createTable tableName d)
             else
               (case readTableFromBinaryBuffer now (fileBuffer C encryptedBuffer) of
                  Inl e \<Rightarrow> Inl e
                | Inr tableData \<Rightarrow> Inr (AList.update tableName tableData d))))"

subsection \<open>Items\<close>

definition deleteItem :: "string \<Rightarrow> string \<Rightarrow> db \<Rightarrow> db" where
  "deleteItem tableName ky s =
     (case map_of (data s) tableName of
        None \<Rightarrow> s
      | Some tbl \<Rightarrow> s\<lparr>data := AList.update tableName (AList.delete ky tbl) (data s)\<rparr>)"

definition setItem :: "string \<Rightarrow> string \<Rightarrow> item \<Rightarrow> db \<Rightarrow> db" where
  "setItem tableName ky it s =
     (let d = createTable tableName (data s)
      in case map_of d tableName of
           None \<Rightarrow> s\<lparr>data := d\<rparr>
         | Some tbl \<Rightarrow> s\<lparr>data := AList.update tableName (AList.update ky it tbl) d\<rparr>)"

text \<open>
  \<open>stored\<close> is the lookup \<open>this.data.get(tableName)?.get(key)\<close>, and \<open>expired\<close> the test
  \<open>item.x !== 0 && Date.now() > item.x\<close> that \<open>getItem\<close> applies to the item found.
  \<open>getItem\<close> returns nothing for a missing item; an expired item is deleted and nothing is
  returned; otherwise the item is returned as
  \<open>{value: item.value, version: item.v, timestamp: item.t, expiration: item.x}\<close>.
\<close>

definition stored :: "db \<Rightarrow> string \<Rightarrow> string \<Rightarrow> item option" where
  "stored s tableName ky = map_of (getTable (data s) tableName) ky"

definition expired :: "int \<Rightarrow> item \<Rightarrow> bool" where
  "expired now it = (strict_neq (item_x it) (Num 0) \<and> int_gt now (item_x it))"

definition getItem :: "int \<Rightarrow> string \<Rightarrow> string \<Rightarrow> db \<Rightarrow> item option \<times> db" where
  "getItem now tableName ky s =
     (case stored s tableName ky of
        None \<Rightarrow> (None, s)
      | Some it \<Rightarrow>
          if expired now it then (None, deleteItem tableName ky s)
          else (Some (record_item (item_value it) (item_v it) (item_t it) (item_x it)), s))"

record ItemVersionIntegrityResult =
  success :: bool
  currentRecord :: "item option"
  currentVersion :: jsnum
  newVersion :: jsnum
  currentExpiration :: int

text \<open>\<open>getItemVersion\<close>; \<open>expectedVersion\<close> is \<open>None\<close> for \<open>null\<close>.\<close>

definition getItemVersion ::
  "int \<Rightarrow> string \<Rightarrow> string \<Rightarrow> int option \<Rightarrow> db \<Rightarrow> ItemVersionIntegrityResult \<times> db"
where
  "getItemVersion now tableName ky expectedVersion s =
     (let (rec, s') = getItem now tableName ky s;
          cur = (case rec of None \<Rightarrow> Num 0 | Some r \<Rightarrow> item_version r);
          new = js_succ cur;
          ex = (case rec of None \<Rightarrow> 0 | Some r \<Rightarrow> or_zero (item_expiration r));
          ok = (case expectedVersion of
                  None \<Rightarrow> True
                | Some e \<Rightarrow> \<not> strict_neq cur (Num e))
      in (\<lparr>success = ok, currentRecord = rec, currentVersion = cur, newVersion = new,
           currentExpiration = ex\<rparr>, s'))"

definition addToWriteBuffer :: "int \<Rightarrow> string \<Rightarrow> string \<Rightarrow> db \<Rightarrow> db" where
  "addToWriteBuffer now tableName ky s =
     (let (rec, s') = getItem now tableName ky s
      in s'\<lparr>writeBuffer := writeBuffer s' @ [(tableName, ky, rec)]\<rparr>)"

subsection \<open>\<open>flushWrites\<close> and \<open>flush\<close>\<close>

text \<open>
  \<open>writeToDisk\<close> produces the file image: the encoded table, encrypted when a key is
  configured and encryption does not throw. \<open>flushWrites\<close> rewrites the file of every table
  named in the write buffer from the whole in-memory table; a table whose encoding throws
  is not written, and then the \<open>catch\<close> leaves the write buffer as it is.
\<close>

definition writeToDisk :: "crypto \<Rightarrow> table \<Rightarrow> db_error + buffer" where
  "writeToDisk C tbl =
     (case toBinaryBuffer tbl of
        Inl e \<Rightarrow> Inl e
      | Inr buf \<Rightarrow>
          (case encryptionKey C of
             None \<Rightarrow> Inr buf
           | Some k \<Rightarrow>
               (case encryptFile C k buf of
                  None \<Rightarrow> Inr buf
                | Some encrypted \<Rightarrow> Inr encrypted)))"

fun writeTables ::
  "crypto \<Rightarrow> (string \<times> table) list \<Rightarrow> string list \<Rightarrow> (string \<times> buffer) list \<Rightarrow>
   bool \<times> (string \<times> buffer) list"
where
  "writeTables C d [] fs = (True, fs)"
| "writeTables C d (tableName # rest) fs =
     (case writeToDisk C (getTable d tableName) of
        Inl e \<Rightarrow> (False, snd (writeTables C d rest fs))
      | Inr img \<Rightarrow> writeTables C d rest (AList.update tableName img fs))"

definition flushWrites :: "crypto \<Rightarrow> db \<Rightarrow> db" where
  "flushWrites C s =
     (if length (writeBuffer s) = 0 then s
      else
        let tableNames = remdups (map fst (writeBuffer s));
            (ok, fs) = writeTables C (data s) tableNames (files s)
        in if ok then s\<lparr>files := fs, writeBuffer := []\<rparr> else s\<lparr>files := fs\<rparr>)"

definition flush :: "crypto \<Rightarrow> db \<Rightarrow> db_error + db" where
  "flush C s =
     (case flushWAL (wal s) of
        Inl e \<Rightarrow> Inl e
      | Inr w \<Rightarrow> Inr (flushWrites C (s\<lparr>wal := w\<rparr>)))"

subsection \<open>\<open>writeItem\<close> and \<open>write\<close>\<close>

text \<open>
  A write operation; \<open>expectedVersion\<close> defaults to \<open>null\<close> (\<open>None\<close>) and \<open>expiration\<close> to 0.
  \<open>writeItem\<close> is modelled from the point where \<open>setActiveTable\<close> has returned, that is, on
  the state in which the table is active; loading is \<open>loadTable\<close> and \<open>loadWAL\<close> above.
\<close>

record WriteOperation =
  w_tableName :: string
  w_key :: string
  w_value :: jsval
  w_expectedVersion :: "int option"
  w_expiration :: int

definition writeItem ::
  "builtins \<Rightarrow> crypto \<Rightarrow> int \<Rightarrow> WriteOperation \<Rightarrow> bool \<Rightarrow> db \<Rightarrow> db_error + (bool \<times> db)"
where
  "writeItem B C now operation flushImmediately s =
     (let (r, s1) =
            getItemVersion now (w_tableName operation) (w_key operation)
              (w_expectedVersion operation) s
      in if \<not> success r then Inr (False, s1)
         else
           (case appendToWAL B now (w_tableName operation) ''W'' (w_key operation)
                   (w_value operation) (newVersion r) (w_expiration operation) (wal s1) of
              Inl e \<Rightarrow> Inl e
            | Inr w' \<Rightarrow>
                let s2 = setItem (w_tableName operation) (w_key operation)
                           (written_item (w_value operation) (newVersion r) (Num now)
                              (Num (w_expiration operation)))
                           (s1\<lparr>wal := w'\<rparr>);
                    s3 = addToWriteBuffer now (w_tableName operation) (w_key operation) s2
                in if flushImmediately then
                     (case flush C s3 of Inl e \<Rightarrow> Inl e | Inr s4 \<Rightarrow> Inr (True, s4))
                   else Inr (True, s3)))"





subsection \<open>No encryption, and a file that fails the header check\<close>

text \<open>No encryption key; and the file of the format test, \<open>This is not a valid MikroDB file\<close>.\<close>

definition no_crypto :: crypto where
  "no_crypto = \<lparr>encryptionKey = None, decryptFile = (\<lambda>k b. None), encryptFile = (\<lambda>k b. None)\<rparr>"

definition invalid_file :: buffer where
  "invalid_file =
     [84, 104, 105, 115, 32, 105, 115, 32, 110, 111, 116, 32, 97, 32, 118, 97,
      108, 105, 100, 32, 77, 105, 107, 114, 111, 68, 66, 32, 102, 105, 108, 101]"

subsection \<open>The version a write starts from\<close>

text \<open>The version the version check works with: 0 for a missing or expired item.\<close>

definition current_version :: "int \<Rightarrow> db \<Rightarrow> string \<Rightarrow> string \<Rightarrow> jsnum" where
  "current_version now s t k =
     (case stored s t k of
        None \<Rightarrow> Num 0
      | Some it \<Rightarrow> if expired now it then Num 0 else item_v it)"

subsection \<open>An empty database\<close>

definition empty_db :: db where
  "empty_db =
     \<lparr>data = [],
      wal = \<lparr>walFile = Some [], walBuffer = [], maxWalBufferEntries = 100,
             maxWalBufferSize = 10485, lastProcessedEntryCount = []\<rparr>,
      writeBuffer = [], files = [], maxWriteOpsBeforeFlush = 100\<rparr>"

subsection \<open>Example states and operations\<close>

text \<open>Example states: one table \<open>users\<close>, an empty WAL file, no table files.\<close>

definition users_db ::
  "table \<Rightarrow> string list \<Rightarrow> (string \<times> string \<times> item option) list \<Rightarrow> db" where
  "users_db tbl entries pending =
     \<lparr>data = [(''users'', tbl)],
      wal = \<lparr>walFile = Some [], walBuffer = entries, maxWalBufferEntries = 100,
             maxWalBufferSize = 10485, lastProcessedEntryCount = []\<rparr>,
      writeBuffer = pending, files = [], maxWriteOpsBeforeFlush = 100\<rparr>"






subsection \<open>Table files with one record\<close>

text \<open>
  The decoder and the WAL replay store \<open>{value, version, timestamp, expiration}\<close>, while
  \<open>getItem\<close> reads \<open>item.v\<close>, \<open>item.t\<close> and \<open>item.x\<close>. The two files below hold one record
  \<open>k\<close> of version 1, the first with no expiration, the second expiring at 20.
\<close>

definition one_record_file :: buffer where
  "one_record_file =
     [77, 68, 66, 1, 1, 0, 0, 0,
      1, 0, 1, 0, 0, 0, 1, 0, 0, 0, 1, 0, 0, 0, 0, 0, 0, 0, 0, 0, 0, 0, 0, 0, 0, 0,
      107, 0]"

definition expiring_record_file :: buffer where
  "expiring_record_file =
     [77, 68, 66, 1, 1, 0, 0, 0,
      1, 0, 1, 0, 0, 0, 1, 0, 0, 0, 1, 0, 0, 0, 0, 0, 0, 0, 20, 0, 0, 0, 0, 0, 0, 0,
      107, 0]"

chapter \<open>Properties\<close>

section \<open>Cache eviction\<close>

subsection \<open>Eviction picks the least recently used tables\<close>

lemma fold_delete_filter:
  "fold AList.delete names ts = filter (\<lambda>p. fst p \<notin> set names) ts"
proof (induction names arbitrary: ts)
  case Nil
  then show ?case by simp
next
  case (Cons a names)
  have "AList.delete a ts = filter (\<lambda>p. fst p \<noteq> a) ts"
    by (simp add: AList.delete_eq split_def) (metis)
  then show ?case
    using Cons.IH [of "AList.delete a ts"] by (simp add: conj_commute)
qed

lemma accessTime_member:
  assumes "distinct (map fst ts)" and "p \<in> set ts"
  shows "accessTime ts (fst p) = snd p"
proof -
  from assms have "map_of ts (fst p) = Some (snd p)"
    by (cases p) simp
  then show ?thesis by (simp add: accessTime_def)
qed

lemma sorted_take_drop_le:
  assumes "sorted (map f xs)" and "a \<in> set (take m xs)" and "b \<in> set (drop m xs)"
  shows "f a \<le> f b"
proof -
  have "sorted (map f (take m xs) @ map f (drop m xs))"
    using assms(1) by (simp flip: map_append)
  then show ?thesis
    using assms(2,3) by (auto simp: sorted_append)
qed

text \<open>
  C9. With \<open>n\<close> tracked tables of pairwise distinct access times and cache limit \<open>k\<close>:
  when \<open>n \<le> k\<close> nothing is returned and the tracker is unchanged; when \<open>n > k\<close> the call
  returns \<open>n - k\<close> tables in strictly ascending order of access time, every returned table
  is older than every table that stays, and the tracker keeps exactly the entries of the
  tables that were not returned.
\<close>

theorem findTablesForEviction_lru:
  assumes names: "distinct (map fst (tableAccessTimes c))"
    and times: "distinct (map snd (tableAccessTimes c))"
    and n: "length (tableAccessTimes c) = n"
    and k: "cacheLimit c = k"
    and run: "findTablesForEviction n c = (evicted, c')"
  shows "(n \<le> k \<longrightarrow> evicted = [] \<and> c' = c)
      \<and> (k < n \<longrightarrow>
            length evicted = n - k
          \<and> set evicted \<subseteq> fst ` set (tableAccessTimes c)
          \<and> sorted_wrt (<) (map (accessTime (tableAccessTimes c)) evicted)
          \<and> (\<forall>a \<in> set evicted. \<forall>b \<in> set (tableAccessTimes c').
                accessTime (tableAccessTimes c) a < snd b)
          \<and> tableAccessTimes c' =
              filter (\<lambda>p. fst p \<notin> set evicted) (tableAccessTimes c)
          \<and> cacheLimit c' = k)"
proof (rule conjI)
  show "n \<le> k \<longrightarrow> evicted = [] \<and> c' = c"
    using run k by (auto simp: findTablesForEviction_def)
next
  define ts where "ts = tableAccessTimes c"
  define s where "s = sort_key snd ts"
  define m where "m = n - k"
  show "k < n \<longrightarrow>
            length evicted = n - k
          \<and> set evicted \<subseteq> fst ` set (tableAccessTimes c)
          \<and> sorted_wrt (<) (map (accessTime (tableAccessTimes c)) evicted)
          \<and> (\<forall>a \<in> set evicted. \<forall>b \<in> set (tableAccessTimes c').
                accessTime (tableAccessTimes c) a < snd b)
          \<and> tableAccessTimes c' =
              filter (\<lambda>p. fst p \<notin> set evicted) (tableAccessTimes c)
          \<and> cacheLimit c' = k"
  proof
    assume kn: "k < n"
    have ev: "evicted = map fst (take m s)"
      and c': "c' = c\<lparr>tableAccessTimes := fold AList.delete evicted ts\<rparr>"
      using run k kn
      by (auto simp: findTablesForEviction_def Let_def ts_def s_def m_def)
    have set_s: "set s = set ts" and len_s: "length s = n"
      using n by (simp_all add: s_def ts_def)
    have sorted_s: "sorted (map snd s)"
      by (simp add: s_def)
    have dist_s: "distinct (map snd s)"
      using times by (simp add: s_def ts_def distinct_map)
    have dist_fst_s: "distinct (map fst s)"
      using names by (simp add: s_def ts_def distinct_map)
    have len: "length evicted = n - k"
      using len_s by (simp add: ev m_def)
    have sub: "set evicted \<subseteq> fst ` set ts"
      using set_s by (auto simp: ev dest: in_set_takeD)
    have time_of: "accessTime ts (fst p) = snd p" if "p \<in> set s" for p
      using that names set_s accessTime_member [of ts p] by (simp add: ts_def)
    have "map (accessTime ts) evicted = map snd (take m s)"
      using time_of by (auto simp: ev dest: in_set_takeD)
    moreover have "sorted (map snd (take m s))" "distinct (map snd (take m s))"
      using sorted_s dist_s
      by (simp_all add: take_map [symmetric] sorted_wrt_take)
    ultimately have asc: "sorted_wrt (<) (map (accessTime ts) evicted)"
      by (simp add: strict_sorted_iff)
    have rest: "tableAccessTimes c' = filter (\<lambda>p. fst p \<notin> set evicted) ts"
      by (simp add: c' fold_delete_filter)
    have older: "accessTime ts a < snd b"
      if a: "a \<in> set evicted" and b: "b \<in> set (tableAccessTimes c')" for a b
    proof -
      from a obtain p where p: "p \<in> set (take m s)" and ap: "a = fst p"
        by (auto simp: ev)
      from b have bts: "b \<in> set ts" and bne: "fst b \<notin> set evicted"
        by (simp_all add: rest)
      have "b \<notin> set (take m s)"
        using bne by (auto simp: ev)
      moreover have "set s = set (take m s) \<union> set (drop m s)"
        by (metis append_take_drop_id set_append)
      ultimately have bd: "b \<in> set (drop m s)"
        using bts set_s by auto
      have le: "snd p \<le> snd b"
        using sorted_take_drop_le [OF sorted_s p bd] .
      have ps: "p \<in> set s" using p by (rule in_set_takeD)
      have "p \<noteq> b" using p \<open>b \<notin> set (take m s)\<close> by auto
      then have "snd p \<noteq> snd b"
        using dist_s ps bts set_s by (auto simp: distinct_map inj_on_def)
      with le have "snd p < snd b" by simp
      then show ?thesis using time_of [OF ps] ap by simp
    qed
    show "length evicted = n - k
          \<and> set evicted \<subseteq> fst ` set (tableAccessTimes c)
          \<and> sorted_wrt (<) (map (accessTime (tableAccessTimes c)) evicted)
          \<and> (\<forall>a \<in> set evicted. \<forall>b \<in> set (tableAccessTimes c').
                accessTime (tableAccessTimes c) a < snd b)
          \<and> tableAccessTimes c' =
              filter (\<lambda>p. fst p \<notin> set evicted) (tableAccessTimes c)
          \<and> cacheLimit c' = k"
      using len sub asc older rest k by (simp add: ts_def c')
  qed
qed

theorem findTablesForEviction_lru_witness:
  "distinct (map fst [(''t1'', 30), (''t2'', 10), (''t3'', 20 :: int)])
   \<and> distinct (map snd [(''t1'', 30), (''t2'', 10), (''t3'', 20 :: int)])
   \<and> findTablesForEviction 3
         \<lparr>cacheLimit = 1, tableAccessTimes = [(''t1'', 30), (''t2'', 10), (''t3'', 20)]\<rparr>
       = ([''t2'', ''t3''], \<lparr>cacheLimit = 1, tableAccessTimes = [(''t1'', 30)]\<rparr>)
   \<and> length [''t2'', ''t3''] = 3 - (1 :: nat)
   \<and> sorted_wrt (<)
         (map (accessTime [(''t1'', 30), (''t2'', 10), (''t3'', 20)]) [''t2'', ''t3''])
   \<and> accessTime [(''t1'', 30), (''t2'', 10), (''t3'', 20)] ''t3'' < snd (''t1'', 30 :: int)"
proof -
  let ?c = "\<lparr>cacheLimit = 1, tableAccessTimes = [(''t1'', 30), (''t2'', 10), (''t3'', 20)]\<rparr>"
  let ?c' = "\<lparr>cacheLimit = 1, tableAccessTimes = [(''t1'', 30 :: int)]\<rparr>"
  have run: "findTablesForEviction 3 ?c = ([''t2'', ''t3''], ?c')"
    by (simp add: findTablesForEviction_def AList.delete_eq)
  have d1: "distinct (map fst (tableAccessTimes ?c))" by simp
  have d2: "distinct (map snd (tableAccessTimes ?c))" by simp
  have n: "length (tableAccessTimes ?c) = 3" by simp
  have k: "cacheLimit ?c = 1" by simp
  show ?thesis
    using findTablesForEviction_lru [OF d1 d2 n k run] run by simp
qed

section \<open>Queries\<close>

subsection \<open>The default limit of a query\<close>

lemma length_insert_by: "length (insert_by cmp a bs) = Suc (length bs)"
  by (induction bs) auto

lemma length_js_sort: "length (js_sort cmp as) = length as"
  by (induction as) (auto simp: js_sort_def length_insert_by)

lemma length_update_le: "length (AList.update k v al) \<le> Suc (length al)"
  by (induction al) auto

lemma update_fresh: "k \<notin> fst ` set al \<Longrightarrow> AList.update k v al = al @ [(k, v)]"
  by (induction al) auto

lemma query_loop_length:
  "0 < limit \<Longrightarrow> length records < limit \<Longrightarrow>
   length (query_loop flt limit tbl records) \<le> limit"
proof (induction tbl arbitrary: records)
  case Nil
  then show ?case by simp
next
  case (Cons e tbl)
  obtain k v where e: "e = (k, v)" by (cases e)
  let ?r = "AList.update k (item_value v) records"
  have "length ?r \<le> Suc (length records)" by (rule length_update_le)
  with Cons.prems have le: "length ?r \<le> limit" by simp
  show ?case
  proof (cases "matches flt v")
    case False
    then show ?thesis using Cons e by simp
  next
    case True
    show ?thesis
    proof (cases "length ?r \<ge> limit")
      case True
      then show ?thesis using \<open>matches flt v\<close> le Cons.prems e by (simp add: Let_def)
    next
      case False
      then have "length ?r < limit" by simp
      from Cons.IH [OF Cons.prems(1) this] show ?thesis
        using \<open>matches flt v\<close> False e by (simp add: Let_def)
    qed
  qed
qed

lemma query_loop_take:
  "0 < limit \<Longrightarrow> length records < limit \<Longrightarrow> distinct (map fst tbl) \<Longrightarrow>
   fst ` set records \<inter> fst ` set tbl = {} \<Longrightarrow>
   query_loop flt limit tbl records =
     records @ take (limit - length records)
       (map (\<lambda>e. (fst e, item_value (snd e))) (filter (\<lambda>e. matches flt (snd e)) tbl))"
proof (induction tbl arbitrary: records)
  case Nil
  then show ?case by simp
next
  case (Cons e tbl)
  obtain k v where e: "e = (k, v)" by (cases e)
  from Cons.prems have fresh: "k \<notin> fst ` set records"
    by (auto simp: e)
  let ?r = "records @ [(k, item_value v)]"
  have upd: "AList.update k (item_value v) records = ?r"
    using fresh by (rule update_fresh)
  show ?case
  proof (cases "matches flt v")
    case False
    have "fst ` set records \<inter> fst ` set tbl = {}"
      using Cons.prems(4) by auto
    with Cons.IH [of records] Cons.prems False show ?thesis
      by (simp add: e)
  next
    case True
    show ?thesis
    proof (cases "length ?r \<ge> limit")
      case True
      with Cons.prems(2) have "limit - length records = Suc 0" by simp
      then show ?thesis
        using \<open>matches flt v\<close> True Cons.prems(1) upd by (simp add: e Let_def)
    next
      case False
      then have lt: "length ?r < limit" by simp
      have disj: "fst ` set ?r \<inter> fst ` set tbl = {}"
        using Cons.prems(3,4) by (auto simp: e)
      have d: "distinct (map fst tbl)" using Cons.prems(3) by simp
      have step: "limit - length records = Suc (limit - length ?r)"
        using lt by simp
      from Cons.IH [OF Cons.prems(1) lt d disj] show ?thesis
        using \<open>matches flt v\<close> False upd by (simp add: e Let_def step)
    qed
  qed
qed

text \<open>
  C10. A \<open>get\<close> with an options object that carries no limit returns at most 50 values:
  the scan stops at the default limit of 50. The result is the values of the first 50
  matching records in iteration order, sorted when a comparator is given, without the
  first \<open>offset\<close> of them when an offset is given; every later match is left out.
\<close>

theorem get_with_options_default_limit:
  assumes "opt_limit options = None" and "distinct (map fst tbl)"
  shows "get_with_options tbl options =
           drop (case opt_offset options of None \<Rightarrow> 0 | Some n \<Rightarrow> n)
             ((case opt_sort options of None \<Rightarrow> id | Some cmp \<Rightarrow> js_sort cmp)
                (take 50 (map (\<lambda>e. item_value (snd e))
                            (filter (\<lambda>e. matches (opt_filter options) (snd e)) tbl))))
       \<and> length (get_with_options tbl options) \<le> 50"
proof -
  let ?f = "opt_filter options"
  let ?first = "take 50 (map (\<lambda>e. item_value (snd e)) (filter (\<lambda>e. matches ?f (snd e)) tbl))"
  have "query_loop ?f 50 tbl [] =
      take 50 (map (\<lambda>e. (fst e, item_value (snd e))) (filter (\<lambda>e. matches ?f (snd e)) tbl))"
    using query_loop_take [of 50 "[]" tbl ?f] assms(2) by simp
  then have q: "query tbl ?f None = ?first"
    by (simp add: query_def take_map comp_def)
  have eq: "get_with_options tbl options =
           drop (case opt_offset options of None \<Rightarrow> 0 | Some n \<Rightarrow> n)
             ((case opt_sort options of None \<Rightarrow> id | Some cmp \<Rightarrow> js_sort cmp) ?first)"
    using assms(1) q by (simp add: get_with_options_def Let_def split: option.splits)
  have "length ((case opt_sort options of None \<Rightarrow> id | Some cmp \<Rightarrow> js_sort cmp) ?first)
          = length ?first"
    by (simp add: length_js_sort split: option.splits)
  then have "length (get_with_options tbl options) \<le> 50"
    unfolding eq by simp
  with eq show ?thesis by simp
qed

text \<open>
  Of the 60 records, 59 pass the filter (all but the one of value 3); the result is the
  first 50 of them, and the matching records of values 51 to 59 are left out.
\<close>

theorem get_with_options_default_limit_witness:
  "opt_limit \<lparr>opt_filter = Some (\<lambda>v. v \<noteq> VInt32 3), opt_sort = None,
              opt_limit = None, opt_offset = None\<rparr> = None
   \<and> distinct (map fst sixty_records)
   \<and> length (filter (\<lambda>e. matches (Some (\<lambda>v. v \<noteq> VInt32 3)) (snd e)) sixty_records) = 59
   \<and> get_with_options sixty_records
         \<lparr>opt_filter = Some (\<lambda>v. v \<noteq> VInt32 3), opt_sort = None,
          opt_limit = None, opt_offset = None\<rparr> =
       map (\<lambda>i. VInt32 (of_nat i)) ([0..<3] @ [4..<51])"
proof -
  let ?o = "\<lparr>opt_filter = Some (\<lambda>v. v \<noteq> VInt32 3), opt_sort = None,
              opt_limit = None, opt_offset = None\<rparr>"
  have l: "opt_limit ?o = None" by simp
  have d: "distinct (map fst sixty_records)" by code_simp
  have n: "length (filter (\<lambda>e. matches (Some (\<lambda>v. v \<noteq> VInt32 3)) (snd e)) sixty_records) = 59"
    by code_simp
  have f: "take 50 (map (\<lambda>e. item_value (snd e))
                     (filter (\<lambda>e. matches (Some (\<lambda>v. v \<noteq> VInt32 3)) (snd e)) sixty_records))
           = map (\<lambda>i. VInt32 (of_nat i)) ([0..<3] @ [4..<51])"
    by code_simp
  show ?thesis
    using get_with_options_default_limit [OF l d] d n f by simp
qed

section \<open>Replay of the write-ahead log\<close>

subsection \<open>Replay through the per-table cursor is idempotent\<close>

lemma lastPosition_update:
  "lastPosition (Some t) (AList.update t n cur) = n"
  by (simp add: lastPosition_def AList.update_conv')

lemma entry_step_Applied:
  assumes "entry_step B (Some t) now index entry cur = Applied cur' new" and "t \<noteq> []"
  shows "cur' = AList.update t (index + 1) cur"
    and "lastPosition (Some t) cur \<le> index"
    and "js_trim entry \<noteq> []"
    and "\<forall>op \<in> set new. op_tableName op = t"
  using assms
  by (auto simp: entry_step_def Let_def table_given_def
           split: if_splits option.splits prod.splits)

lemma entry_step_Skip_again:
  assumes "entry_step B (Some t) now index entry cur = Skip" and "t \<noteq> []"
    and "now \<le> now'" and "lastPosition (Some t) cur \<le> lastPosition (Some t) cur2"
  shows "entry_step B (Some t) now' index entry cur2 = Skip"
proof -
  have later: "lt_int e now \<Longrightarrow> lt_int e now'" for e
    using \<open>now \<le> now'\<close> by (cases e) auto
  show ?thesis
    using assms(1,2,4) later
    by (auto simp: entry_step_def Let_def table_given_def
             split: if_splits option.splits prod.splits)
qed

lemma entry_step_Thrown_again:
  assumes "entry_step B (Some t) now index entry cur = Thrown" and "t \<noteq> []"
  shows "entry_step B (Some t) now' index entry cur = Thrown"
  using assms
  by (auto simp: entry_step_def Let_def table_given_def
           split: if_splits option.splits prod.splits)

lemma entry_step_behind_cursor:
  assumes "js_trim entry \<noteq> []" and "t \<noteq> []" and "index < lastPosition (Some t) cur"
  shows "entry_step B (Some t) now index entry cur = Skip"
  using assms by (simp add: entry_step_def table_given_def)

lemma loadWAL_loop_cursor_mono:
  assumes "loadWAL_loop B (Some t) now index entries cur acc = (operations, cur')"
    and "t \<noteq> []"
  shows "lastPosition (Some t) cur \<le> lastPosition (Some t) cur'"
  using assms(1)
proof (induction entries arbitrary: index cur acc)
  case Nil
  then show ?case by simp
next
  case (Cons entry rest)
  show ?case
  proof (cases "entry_step B (Some t) now index entry cur")
    case Skip
    with Cons show ?thesis by simp
  next
    case Thrown
    with Cons.prems show ?thesis by simp
  next
    case (Applied cur1 new)
    from entry_step_Applied(1,2) [OF Applied \<open>t \<noteq> []\<close>]
    have "lastPosition (Some t) cur \<le> lastPosition (Some t) cur1"
      by (simp add: lastPosition_update)
    moreover have "lastPosition (Some t) cur1 \<le> lastPosition (Some t) cur'"
      using Cons.IH [of "index + 1" cur1 "acc @ new"] Cons.prems Applied by simp
    ultimately show ?thesis by simp
  qed
qed

lemma loadWAL_loop_tables:
  assumes "loadWAL_loop B (Some t) now index entries cur acc = (operations, cur')"
    and "t \<noteq> []" and "\<forall>op \<in> set acc. op_tableName op = t"
  shows "\<forall>op \<in> set operations. op_tableName op = t"
  using assms(1,3)
proof (induction entries arbitrary: index cur acc)
  case Nil
  then show ?case by simp
next
  case (Cons entry rest)
  show ?case
  proof (cases "entry_step B (Some t) now index entry cur")
    case Skip
    with Cons show ?thesis by simp
  next
    case Thrown
    with Cons.prems show ?thesis by simp
  next
    case (Applied cur1 new)
    from entry_step_Applied(4) [OF Applied \<open>t \<noteq> []\<close>] Cons.prems(2)
    have "\<forall>op \<in> set (acc @ new). op_tableName op = t" by auto
    with Cons.IH [of "index + 1" cur1 "acc @ new"] Cons.prems(1) Applied
    show ?thesis by simp
  qed
qed

lemma loadWAL_loop_again:
  assumes "loadWAL_loop B (Some t) now index entries cur acc = (operations, cur')"
    and "t \<noteq> []" and "now \<le> now'"
  shows "loadWAL_loop B (Some t) now' index entries cur' acc2 = (acc2, cur')"
  using assms(1)
proof (induction entries arbitrary: index cur acc)
  case Nil
  then show ?case by simp
next
  case (Cons entry rest)
  show ?case
  proof (cases "entry_step B (Some t) now index entry cur")
    case Skip
    have "lastPosition (Some t) cur \<le> lastPosition (Some t) cur'"
      using loadWAL_loop_cursor_mono [of B t now "index + 1" rest cur acc operations cur']
        Cons.prems Skip \<open>t \<noteq> []\<close> by simp
    with Skip have "entry_step B (Some t) now' index entry cur' = Skip"
      using \<open>t \<noteq> []\<close> \<open>now \<le> now'\<close> by (simp add: entry_step_Skip_again)
    moreover have "loadWAL_loop B (Some t) now' (index + 1) rest cur' acc2 = (acc2, cur')"
      using Cons.IH [of "index + 1" cur acc] Cons.prems Skip by simp
    ultimately show ?thesis by simp
  next
    case Thrown
    with Cons.prems have "cur' = cur" by simp
    with Thrown \<open>t \<noteq> []\<close> have "entry_step B (Some t) now' index entry cur' = Thrown"
      by (simp add: entry_step_Thrown_again)
    then show ?thesis by simp
  next
    case (Applied cur1 new)
    have rest: "loadWAL_loop B (Some t) now (index + 1) rest cur1 (acc @ new) = (operations, cur')"
      using Cons.prems Applied by simp
    have "lastPosition (Some t) cur1 = index + 1"
      using entry_step_Applied(1) [OF Applied \<open>t \<noteq> []\<close>] by (simp add: lastPosition_update)
    with loadWAL_loop_cursor_mono [OF rest \<open>t \<noteq> []\<close>]
    have "index < lastPosition (Some t) cur'" by simp
    with entry_step_Applied(3) [OF Applied \<open>t \<noteq> []\<close>] \<open>t \<noteq> []\<close>
    have "entry_step B (Some t) now' index entry cur' = Skip"
      by (simp add: entry_step_behind_cursor)
    moreover have "loadWAL_loop B (Some t) now' (index + 1) rest cur' acc2 = (acc2, cur')"
      using Cons.IH [OF rest] .
    ultimately show ?thesis by simp
  qed
qed

lemma entry_step_blank:
  assumes "js_trim entry = []"
  shows "entry_step B (Some t) now index entry cur = Skip" and "recorded B now t entry = []"
    and "\<not> truncated t entry"
  using assms
  by (simp_all add: entry_step_def recorded_def truncated_def Let_def split: list.splits)

lemma entry_step_truncated:
  assumes "t \<noteq> []" and "lastPosition (Some t) cur \<le> index" and "truncated t entry"
  shows "entry_step B (Some t) now index entry cur = Thrown"
  using assms
  by (auto simp: entry_step_def truncated_def element_def table_given_def Let_def
           split: option.splits)

lemma entry_step_recorded:
  assumes "t \<noteq> []" and "lastPosition (Some t) cur \<le> index" and "\<not> truncated t entry"
  shows "(entry_step B (Some t) now index entry cur = Skip \<and> recorded B now t entry = [])
       \<or> entry_step B (Some t) now index entry cur =
           Applied (AList.update t (index + 1) cur) (recorded B now t entry)"
proof (cases "js_trim entry = []")
  case True
  then show ?thesis by (simp add: entry_step_blank)
next
  case False
  let ?parts = "split_on CHR '' '' entry"
  show ?thesis
  proof (cases "element ?parts 2 = Some t")
    case other: False
    then have "entry_step B (Some t) now index entry cur = Skip"
      using False assms(1,2) by (simp add: entry_step_def table_given_def Let_def)
    moreover have "recorded B now t entry = []"
      using other by (auto simp: recorded_def element_def Let_def split: list.splits)
    ultimately show ?thesis by simp
  next
    case mine: True
    with assms(3) False have "5 \<le> length ?parts"
      by (simp add: truncated_def)
    then obtain a b c d e rest where parts: "?parts = a # b # c # d # e # rest"
      by (cases ?parts; simp; cases "tl ?parts"; simp; cases "tl (tl ?parts)"; simp;
          cases "tl (tl (tl ?parts))"; simp; cases "tl (tl (tl (tl ?parts)))"; simp)
    from mine parts have c: "c = t" by (simp add: element_def)
    show ?thesis
      using False assms(1,2) parts c
      by (auto simp: entry_step_def recorded_def element_def table_given_def Let_def
               split: option.splits)
  qed
qed

lemma loadWAL_loop_replay:
  assumes "t \<noteq> []"
  shows "\<exists>cur'. loadWAL_loop B (Some t) now index entries cur acc =
           (acc @ concat (map (recorded B now t)
                            (takeWhile (\<lambda>entry. \<not> truncated t entry)
                               (drop (lastPosition (Some t) cur - index) entries))),
            cur')"
proof (induction entries arbitrary: index cur acc)
  case Nil
  then show ?case by simp
next
  case (Cons entry rest)
  let ?lp = "lastPosition (Some t) cur"
  show ?case
  proof (cases "index < ?lp")
    case True
    have skip: "entry_step B (Some t) now index entry cur = Skip"
      using True assms
      by (cases "js_trim entry = []") (simp_all add: entry_step_blank entry_step_behind_cursor)
    have "?lp - index = Suc (?lp - (index + 1))"
      using True by simp
    then have "drop (?lp - index) (entry # rest) = drop (?lp - (index + 1)) rest"
      by simp
    with skip Cons.IH [of "index + 1" cur acc] show ?thesis by simp
  next
    case False
    then have le: "?lp \<le> index" by simp
    show ?thesis
    proof (cases "truncated t entry")
      case True
      with le assms show ?thesis by (simp add: entry_step_truncated)
    next
      case nt: False
      from entry_step_recorded [OF assms le nt, of B now]
      show ?thesis
      proof
        assume s: "entry_step B (Some t) now index entry cur = Skip
                   \<and> recorded B now t entry = []"
        have "?lp - (index + 1) = 0" using le by simp
        with s nt le Cons.IH [of "index + 1" cur acc] show ?thesis by simp
      next
        assume a: "entry_step B (Some t) now index entry cur =
                     Applied (AList.update t (index + 1) cur) (recorded B now t entry)"
        have "lastPosition (Some t) (AList.update t (index + 1) cur) - (index + 1) = 0"
          by (simp add: lastPosition_update)
        with a nt le
          Cons.IH [of "index + 1" "AList.update t (index + 1) cur"
                      "acc @ recorded B now t entry"]
        show ?thesis by simp
      qed
    qed
  qed
qed

text \<open>
  C7, as the code has it. With the WAL file as a flush left it, a \<open>loadWAL\<close> for a table
  returns the replay of the file from the table's cursor: the operations that the lines
  from the cursor on record for the table, in file order, up to the first truncated line
  of the table. A second \<open>loadWAL\<close> for the same table, at a clock that has not gone back,
  returns the empty list and leaves the cursor as the first call set it. Lines that are
  skipped as expired, for JSON that does not parse, or as lines of other tables do not
  change this.
\<close>

theorem loadWAL_twice:
  assumes "t \<noteq> []" and "now \<le> now'" and "walFile w = Some walData"
  shows "\<exists>w'. loadWAL B now (Some t) w =
                Inr (replay B now t (lastPosition (Some t) (lastProcessedEntryCount w)) walData,
                     w')
            \<and> loadWAL B now' (Some t) w' = Inr ([], w')
            \<and> walFile w' = walFile w \<and> walBuffer w' = walBuffer w"
proof (cases "length walData = 0")
  case True
  with assms(3) show ?thesis by (simp add: loadWAL_def replay_def)
next
  case False
  let ?entries = "split_on CHR 0x0A (js_trim walData)"
  let ?cur = "lastProcessedEntryCount w"
  from loadWAL_loop_replay [OF assms(1), of B now 0 ?entries ?cur "[]"]
  obtain cur' where
    loop: "loadWAL_loop B (Some t) now 0 ?entries ?cur [] =
             (replay B now t (lastPosition (Some t) ?cur) walData, cur')"
    using False by (auto simp: replay_def)
  let ?w' = "w\<lparr>lastProcessedEntryCount := cur'\<rparr>"
  have first: "loadWAL B now (Some t) w =
                 Inr (replay B now t (lastPosition (Some t) ?cur) walData, ?w')"
    using assms(3) False loop by (simp add: loadWAL_def Let_def)
  have "loadWAL_loop B (Some t) now' 0 ?entries cur' [] = ([], cur')"
    using loadWAL_loop_again [OF loop assms(1,2)] .
  then have "loadWAL B now' (Some t) ?w' = Inr ([], ?w')"
    using assms(3) False by (simp add: loadWAL_def Let_def)
  with first show ?thesis by auto
qed

lemma example_loadWAL:
  "loadWAL example_builtins 10 (Some ''users'') example_wal =
     Inr ([OpW ''users'' (Some ''k1'') (record_item (VBool True) (Num 1) (Num 10) (Num 0)),
           OpD ''users'' (Some ''k1'')],
          example_wal\<lparr>lastProcessedEntryCount := [(''users'', 5)]\<rparr>)"
  by (simp add: loadWAL_def example_wal_def example_builtins_def js_trim_def is_space_def
        entry_step_def Let_def element_def table_given_def lastPosition_def
        number_after_colon_def getJsonValueFromEntry_def getJsonValue_def)

text \<open>
  The example log holds, for the table \<open>users\<close>, a write, a write that has expired at the
  clock 10, a write whose JSON does not parse and a delete, between lines of another
  table.
\<close>

theorem loadWAL_twice_witness:
  "''users'' \<noteq> [] \<and> (10 :: int) \<le> 11
   \<and> walFile example_wal \<noteq> None
   \<and> replay example_builtins 10 ''users''
        (lastPosition (Some ''users'') (lastProcessedEntryCount example_wal))
        (case walFile example_wal of Some walData \<Rightarrow> walData | None \<Rightarrow> []) =
       [OpW ''users'' (Some ''k1'') (record_item (VBool True) (Num 1) (Num 10) (Num 0)),
        OpD ''users'' (Some ''k1'')]
   \<and> loadWAL example_builtins 10 (Some ''users'') example_wal =
       Inr ([OpW ''users'' (Some ''k1'') (record_item (VBool True) (Num 1) (Num 10) (Num 0)),
             OpD ''users'' (Some ''k1'')],
            example_wal\<lparr>lastProcessedEntryCount := [(''users'', 5)]\<rparr>)
   \<and> loadWAL example_builtins 11 (Some ''users'')
         (example_wal\<lparr>lastProcessedEntryCount := [(''users'', 5)]\<rparr>) =
       Inr ([], example_wal\<lparr>lastProcessedEntryCount := [(''users'', 5)]\<rparr>)"
proof -
  obtain walData where f: "walFile example_wal = Some walData"
    by (simp add: example_wal_def)
  have t: "''users'' \<noteq> []" by simp
  have c: "(10 :: int) \<le> 11" by simp
  from loadWAL_twice [OF t c f, of example_builtins]
  obtain w' where
    first: "loadWAL example_builtins 10 (Some ''users'') example_wal =
              Inr (replay example_builtins 10 ''users''
                     (lastPosition (Some ''users'') (lastProcessedEntryCount example_wal))
                     walData, w')"
    and second: "loadWAL example_builtins 11 (Some ''users'') w' = Inr ([], w')"
    by blast
  from first example_loadWAL
  have "replay example_builtins 10 ''users''
          (lastPosition (Some ''users'') (lastProcessedEntryCount example_wal)) walData =
        [OpW ''users'' (Some ''k1'') (record_item (VBool True) (Num 1) (Num 10) (Num 0)),
         OpD ''users'' (Some ''k1'')]"
    and "w' = example_wal\<lparr>lastProcessedEntryCount := [(''users'', 5)]\<rparr>"
    by simp_all
  with second f example_loadWAL show ?thesis by simp
qed

text \<open>
  C7 as the specification states it fails in two ways. On a log whose second line is
  truncated the replay stops at that line: the first call returns the write of \<open>k1\<close> only,
  and the write of \<open>k3\<close> that the third line records is returned by neither call. And when
  the clock goes back between the calls, from 10 to 3, a write that had expired for the
  first call is returned by the second.
\<close>

theorem loadWAL_twice_counterexample:
  "loadWAL example_builtins 10 (Some ''users'') truncated_wal =
     Inr ([OpW ''users'' (Some ''k1'') (record_item (VBool True) (Num 1) (Num 10) (Num 0))],
          truncated_wal\<lparr>lastProcessedEntryCount := [(''users'', 1)]\<rparr>)
   \<and> loadWAL example_builtins 11 (Some ''users'')
        (truncated_wal\<lparr>lastProcessedEntryCount := [(''users'', 1)]\<rparr>) =
     Inr ([], truncated_wal\<lparr>lastProcessedEntryCount := [(''users'', 1)]\<rparr>)
   \<and> recorded example_builtins 10 ''users'' ''3 W users v:1 x:0 k3 true'' =
     [OpW ''users'' (Some ''k3'') (record_item (VBool True) (Num 1) (Num 10) (Num 0))]
   \<and> loadWAL example_builtins 10 (Some ''users'') expiring_wal = Inr ([], expiring_wal)
   \<and> loadWAL example_builtins 3 (Some ''users'') expiring_wal =
     Inr ([OpW ''users'' (Some ''k1'') (record_item (VBool True) (Num 1) (Num 3) (Num 5))],
          expiring_wal\<lparr>lastProcessedEntryCount := [(''users'', 1)]\<rparr>)"
  by (simp add: loadWAL_def truncated_wal_def expiring_wal_def example_builtins_def js_trim_def
        is_space_def entry_step_def recorded_def Let_def element_def table_given_def
        lastPosition_def number_after_colon_def getJsonValueFromEntry_def getJsonValue_def)

section \<open>The binary table codec\<close>

subsection \<open>Fields read back as written\<close>

lemma length_le_bytes [simp]: "length (le_bytes k n) = k"
  by (induction k arbitrary: n) auto

lemma le_value_le_bytes: "n < 256 ^ k \<Longrightarrow> le_value (le_bytes k n) = n"
proof (induction k arbitrary: n)
  case 0
  then show ?case by simp
next
  case (Suc k)
  then have "n div 256 < 256 ^ k"
    by (simp add: less_mult_imp_div_less mult.commute)
  with Suc.IH have "le_value (le_bytes k (n div 256)) = n div 256" by simp
  moreover have "unat (word_of_nat (n mod 256) :: byte) = n mod 256"
    by (simp add: unat_of_nat)
  ultimately show ?case by simp
qed

lemma drop_Cons_next:
  assumes "drop off buf = b # rest"
  shows "off < length buf" and "buf ! off = b" and "drop (Suc off) buf = rest"
proof -
  show lt: "off < length buf"
    using assms by (cases "off < length buf") auto
  show "buf ! off = b"
    using assms lt by (metis hd_drop_conv_nth list.sel(1))
  show "drop (Suc off) buf = rest"
    using assms by (metis drop_Suc list.sel(3) tl_drop)
qed

lemma drop_append_next:
  assumes "drop off buf = front @ rest"
  shows "drop (off + length front) buf = rest"
proof -
  have "drop (length front) (drop off buf) = rest"
    using assms by simp
  then show ?thesis by (simp add: add.commute)
qed

lemma read_le_bytes:
  assumes "drop off buf = le_bytes k n @ rest" and "0 < k" and "n < 256 ^ k"
  shows "readUIntLE k buf off = Inr n"
proof -
  have "length (drop off buf) \<ge> k"
    using assms(1) by simp
  with \<open>0 < k\<close> have "off + k \<le> length buf" by simp
  moreover have "take k (drop off buf) = le_bytes k n"
    using assms(1) by simp
  ultimately show ?thesis
    using assms(3) by (simp add: readUIntLE_def le_value_le_bytes)
qed

lemma read_written:
  assumes "writeUIntLE k n = Inr field" and "drop off buf = field @ rest" and "0 < k"
  shows "readUIntLE k buf off = Inr (nat n)" and "length field = k" and "0 \<le> n"
proof -
  from assms(1) have f: "field = le_bytes k (nat n)" and n: "0 \<le> n" "n < 2 ^ (8 * k)"
    by (auto simp: writeUIntLE_def split: if_splits)
  have "nat n < 256 ^ k"
  proof -
    have "(2 :: int) ^ (8 * k) = 256 ^ k" by (simp add: power_mult)
    with n have "n < 256 ^ k" by simp
    with n(1) show ?thesis by (simp add: nat_less_iff)
  qed
  then show "readUIntLE k buf off = Inr (nat n)"
    using read_le_bytes [of off buf k "nat n" rest] assms(2,3) f by simp
  show "length field = k" by (simp add: f)
  show "0 \<le> n" by fact
qed

lemma read_word32:
  assumes "drop off buf = le_bytes 4 (unat (w :: 32 word)) @ rest"
  shows "readUIntLE 4 buf off = Inr (unat w)"
proof -
  have "unat w < 2 ^ 32" using unsigned_less [of w] by simp
  then have "unat w < 256 ^ 4" by simp
  with assms show ?thesis by (intro read_le_bytes) simp_all
qed

lemma read_word64:
  assumes "drop off buf = le_bytes 8 (unat (w :: 64 word)) @ rest"
  shows "readUIntLE 8 buf off = Inr (unat w)"
proof -
  have "unat w < 2 ^ 64" using unsigned_less [of w] by simp
  then have "unat w < 256 ^ 8" by simp
  with assms show ?thesis by (intro read_le_bytes) simp_all
qed

lemma char_of_byte_of_char [simp]: "char_of_byte (byte_of_char c) = c"
  by (simp add: char_of_byte_def byte_of_char_def unat_of_nat)

lemma toString_utf8:
  assumes "drop off buf = utf8 str @ rest" and "n = length str"
  shows "toString buf off (off + n) = str"
proof -
  have "take n (drop off buf) = utf8 str"
    using assms by (simp add: utf8_def)
  then show ?thesis
    by (simp add: toString_def slice_def utf8_def comp_def)
qed

lemma slice_exact:
  assumes "drop off buf = front @ rest" and "n = length front"
  shows "slice buf off (off + n) = front"
  using assms by (simp add: slice_def)

subsection \<open>The decoder, one type byte at a time\<close>

lemma dvs_null:
  "off < length buf \<Longrightarrow> buf ! off = 0x00 \<Longrightarrow> decodeValueWithSize buf off = Inr (VNull, 1)"
  by (subst decodeValueWithSize.simps) simp

lemma dvs_bool:
  "off < length buf \<Longrightarrow> buf ! off = 0x01 \<Longrightarrow>
   decodeValueWithSize buf off = Inr (VBool (element buf (off + 1) = Some 0x01), 2)"
  by (subst decodeValueWithSize.simps) simp

lemma dvs_int32:
  "off < length buf \<Longrightarrow> buf ! off = 0x02 \<Longrightarrow>
   decodeValueWithSize buf off =
     (case readUIntLE 4 buf (off + 1) of Inl e \<Rightarrow> Inl e | Inr n \<Rightarrow> Inr (VInt32 (of_nat n), 5))"
  by (subst decodeValueWithSize.simps) simp

lemma dvs_double:
  "off < length buf \<Longrightarrow> buf ! off = 0x03 \<Longrightarrow>
   decodeValueWithSize buf off =
     (case readUIntLE 8 buf (off + 1) of Inl e \<Rightarrow> Inl e | Inr n \<Rightarrow> Inr (VDouble (of_nat n), 9))"
  by (subst decodeValueWithSize.simps) simp

lemma dvs_string:
  "off < length buf \<Longrightarrow> buf ! off = 0x04 \<Longrightarrow>
   decodeValueWithSize buf off =
     (case readUIntLE 4 buf (off + 1) of
        Inl e \<Rightarrow> Inl e
      | Inr len \<Rightarrow> Inr (VString (toString buf (off + 5) (off + 5 + len)), 5 + len))"
  by (subst decodeValueWithSize.simps) simp

lemma dvs_array:
  "off < length buf \<Longrightarrow> buf ! off = 0x05 \<Longrightarrow>
   decodeValueWithSize buf off =
     (case readUIntLE 4 buf (off + 1) of
        Inl e \<Rightarrow> Inl e
      | Inr count \<Rightarrow>
          (case decodeArrayItems buf (off + 5) count [] of
             Inl e \<Rightarrow> Inl e
           | Inr r \<Rightarrow> Inr (VArray (fst r), snd r - off)))"
  by (subst decodeValueWithSize.simps) simp

lemma dvs_object:
  "off < length buf \<Longrightarrow> buf ! off = 0x06 \<Longrightarrow>
   decodeValueWithSize buf off =
     (case readUIntLE 4 buf (off + 1) of
        Inl e \<Rightarrow> Inl e
      | Inr count \<Rightarrow>
          (case decodeObjectProps buf (off + 5) count [] of
             Inl e \<Rightarrow> Inl e
           | Inr r \<Rightarrow> Inr (VObject (fst r), snd r - off)))"
  by (subst decodeValueWithSize.simps) simp

lemma dvs_date:
  "off < length buf \<Longrightarrow> buf ! off = 0x07 \<Longrightarrow>
   decodeValueWithSize buf off =
     (case readUIntLE 8 buf (off + 1) of Inl e \<Rightarrow> Inl e | Inr n \<Rightarrow> Inr (VDate (of_nat n), 9))"
  by (subst decodeValueWithSize.simps) simp

lemma dvs_unknown:
  "off < length buf \<Longrightarrow> 0x07 < buf ! off \<Longrightarrow> decodeValueWithSize buf off = Inr (VNull, 1)"
  by (subst decodeValueWithSize.simps) (auto simp: Let_def)

lemma decodeArrayItems_step:
  "decodeArrayItems buf off (Suc n) acc =
     (case decodeValueWithSize buf off of
        Inl e \<Rightarrow> Inl e
      | Inr r \<Rightarrow> decodeArrayItems buf (off + snd r) n (acc @ [fst r]))"
  by (subst decodeArrayItems.simps) (simp split: sum.splits)

lemma decodeObjectProps_step:
  "decodeObjectProps buf off (Suc n) obj =
     (case readUIntLE 2 buf off of
        Inl e \<Rightarrow> Inl e
      | Inr keyLength \<Rightarrow>
          (case decodeValueWithSize buf (off + 2 + keyLength) of
             Inl e \<Rightarrow> Inl e
           | Inr r \<Rightarrow>
               decodeObjectProps buf (off + 2 + keyLength + snd r) n
                 (assign (toString buf (off + 2) (off + 2 + keyLength)) (fst r) obj)))"
  by (subst decodeObjectProps.simps) (simp add: Let_def split: sum.splits)

lemma decodeArrayItems_done: "decodeArrayItems buf off 0 acc = Inr (acc, off)"
  by (subst decodeArrayItems.simps) simp

lemma decodeObjectProps_done: "decodeObjectProps buf off 0 obj = Inr (obj, off)"
  by (subst decodeObjectProps.simps) simp

subsection \<open>Decoding an encoded value\<close>

lemma key_order_tail: "key_order (k # ks) \<Longrightarrow> key_order ks"
  by (cases ks) simp_all

lemma key_order_prefix: "key_order (xs @ ys) \<Longrightarrow> key_order xs"
proof (induction xs rule: key_order.induct)
  case (1 k k' ks)
  then show ?case by simp
qed simp_all

lemma key_order_before_index:
  "key_order (ks @ [k]) \<Longrightarrow> array_index k = Some n \<Longrightarrow> q \<in> set ks \<Longrightarrow>
   \<exists>m. array_index q = Some m \<and> m < n"
proof (induction ks arbitrary: q)
  case Nil
  then show ?case by simp
next
  case (Cons a ks)
  have tl: "key_order (ks @ [k])"
    using Cons.prems(1) key_order_tail [of a "ks @ [k]"] by simp
  show ?case
  proof (cases ks)
    case Nil
    with Cons.prems show ?thesis by (auto split: option.splits)
  next
    case (Cons b ks')
    from Cons.IH [OF tl Cons.prems(2), of b] Cons
    obtain mb where mb: "array_index b = Some mb" "mb < n" by auto
    with Cons.prems(1) Cons obtain ma where ma: "array_index a = Some ma" "ma < mb"
      by (auto split: option.splits)
    show ?thesis
    proof (cases "q = a")
      case True
      with ma mb show ?thesis by auto
    next
      case False
      with Cons.prems(3) have "q \<in> set ks" by simp
      from Cons.IH [OF tl Cons.prems(2) this] show ?thesis .
    qed
  qed
qed

lemma insert_index_last:
  "\<forall>q \<in> set obj. \<exists>m. array_index (fst q) = Some m \<and> m < n \<Longrightarrow>
   insert_index n p obj = obj @ [p]"
  by (induction obj) auto

lemma assign_fresh:
  assumes "k \<notin> fst ` set obj" and "k \<noteq> ''__proto__''"
    and "key_order (map fst (obj @ [(k, v)]))"
  shows "assign k v obj = obj @ [(k, v)]"
proof (cases "array_index k")
  case None
  with assms(1,2) show ?thesis by (simp add: assign_def)
next
  case (Some n)
  have "\<forall>q \<in> set obj. \<exists>m. array_index (fst q) = Some m \<and> m < n"
    using key_order_before_index [of "map fst obj" k n] assms(3) Some by auto
  then have "insert_index n (k, v) obj = obj @ [(k, v)]"
    by (rule insert_index_last)
  with Some assms(1,2) show ?thesis by (simp add: assign_def)
qed

lemma decode_encode:
  "wf_value v \<Longrightarrow> encodeValue v = Inr bs \<Longrightarrow> drop off buf = bs @ suf \<Longrightarrow>
     decodeValueWithSize buf off = Inr (v, length bs) \<and> bs \<noteq> []"
  "wf_values vs \<Longrightarrow> encodeItems vs = Inr bs \<Longrightarrow> drop off buf = bs @ suf \<Longrightarrow>
     decodeArrayItems buf off (length vs) acc = Inr (acc @ vs, off + length bs)"
  "wf_props ps \<Longrightarrow> distinct (map fst ps) \<Longrightarrow> fst ` set accp \<inter> fst ` set ps = {} \<Longrightarrow>
     ''__proto__'' \<notin> fst ` set ps \<Longrightarrow> key_order (map fst (accp @ ps)) \<Longrightarrow>
     encodeProps ps = Inr bs \<Longrightarrow> drop off buf = bs @ suf \<Longrightarrow>
     decodeObjectProps buf off (length ps) accp = Inr (accp @ ps, off + length bs)"
proof (induction v and vs and ps arbitrary: bs off suf and bs off suf acc and bs off suf accp
       rule: encodeValue_encodeItems_encodeProps.induct)
  case 1
  then have bs: "bs = [0x00]" by auto
  with 1 have d: "drop off buf = 0x00 # suf" by simp
  show ?case
    using drop_Cons_next [OF d] bs by (simp add: dvs_null)
next
  case (2 b)
  then have bs: "bs = [0x01, if b then 0x01 else 0x00]" by auto
  with 2 have d: "drop off buf = 0x01 # (if b then 0x01 else 0x00) # suf" by simp
  note n1 = drop_Cons_next [OF d]
  note n2 = drop_Cons_next [OF n1(3)]
  show ?case
    using n1 n2 bs by (simp add: dvs_bool element_def)
next
  case (3 w)
  then have bs: "bs = 0x02 # le_bytes 4 (unat w)" by auto
  with 3 have d: "drop off buf = 0x02 # le_bytes 4 (unat w) @ suf" by simp
  note n1 = drop_Cons_next [OF d]
  have "readUIntLE 4 buf (Suc off) = Inr (unat w)"
    using n1(3) by (rule read_word32)
  then show ?case
    using n1 bs by (simp add: dvs_int32)
next
  case (4 w)
  then have bs: "bs = 0x03 # le_bytes 8 (unat w)" by auto
  with 4 have d: "drop off buf = 0x03 # le_bytes 8 (unat w) @ suf" by simp
  note n1 = drop_Cons_next [OF d]
  have "readUIntLE 8 buf (Suc off) = Inr (unat w)"
    using n1(3) by (rule read_word64)
  then show ?case
    using n1 bs by (simp add: dvs_double)
next
  case (5 str)
  then obtain len where len: "writeUIntLE 4 (int (length (utf8 str))) = Inr len"
    and bs: "bs = 0x04 # len @ utf8 str"
    by (auto simp: Let_def split: sum.splits)
  from 5 bs have d: "drop off buf = 0x04 # len @ utf8 str @ suf" by simp
  note n1 = drop_Cons_next [OF d]
  note r = read_written [OF len n1(3)]
  have "drop (Suc off + length len) buf = utf8 str @ suf"
    using n1(3) by (rule drop_append_next)
  then have "drop (off + 5) buf = utf8 str @ suf"
    using r(2) by (simp add: ac_simps)
  then have "toString buf (off + 5) (off + 5 + length str) = str"
    by (rule toString_utf8) simp
  then show ?case
    using n1 r bs by (simp add: dvs_string utf8_def)
next
  case (6 items)
  then obtain cnt enc where cnt: "writeUIntLE 4 (int (length items)) = Inr cnt"
    and enc: "encodeItems items = Inr enc"
    and bs: "bs = 0x05 # cnt @ enc"
    by (auto split: sum.splits)
  from 6 bs have d: "drop off buf = 0x05 # cnt @ enc @ suf" by simp
  note n1 = drop_Cons_next [OF d]
  note r = read_written [OF cnt n1(3)]
  have "drop (Suc off + length cnt) buf = enc @ suf"
    using n1(3) by (rule drop_append_next)
  then have d5: "drop (off + 5) buf = enc @ suf"
    using r(2) by (simp add: ac_simps)
  have "decodeArrayItems buf (off + 5) (length items) [] =
          Inr ([] @ items, off + 5 + length enc)"
    using "6.IH" [OF cnt _ enc d5] "6.prems"(1) by simp
  then show ?case
    using n1 r bs by (simp add: dvs_array)
next
  case (7 props)
  then obtain cnt enc where cnt: "writeUIntLE 4 (int (length props)) = Inr cnt"
    and enc: "encodeProps props = Inr enc"
    and bs: "bs = 0x06 # cnt @ enc"
    by (auto split: sum.splits)
  from 7 bs have d: "drop off buf = 0x06 # cnt @ enc @ suf" by simp
  note n1 = drop_Cons_next [OF d]
  note r = read_written [OF cnt n1(3)]
  have "drop (Suc off + length cnt) buf = enc @ suf"
    using n1(3) by (rule drop_append_next)
  then have d5: "drop (off + 5) buf = enc @ suf"
    using r(2) by (simp add: ac_simps)
  have "decodeObjectProps buf (off + 5) (length props) [] =
          Inr ([] @ props, off + 5 + length enc)"
    using "7.IH" [OF cnt _ _ _ _ _ enc d5] "7.prems"(1) by simp
  then show ?case
    using n1 r bs by (simp add: dvs_object)
next
  case (8 w)
  then have bs: "bs = 0x07 # le_bytes 8 (unat w)" by auto
  with 8 have d: "drop off buf = 0x07 # le_bytes 8 (unat w) @ suf" by simp
  note n1 = drop_Cons_next [OF d]
  have "readUIntLE 8 buf (Suc off) = Inr (unat w)"
    using n1(3) by (rule read_word64)
  then show ?case
    using n1 bs by (simp add: dvs_date)
next
  case 9
  then show ?case by (auto simp: decodeArrayItems_done)
next
  case (10 v vs)
  then obtain b bs' where b: "encodeValue v = Inr b" and bs': "encodeItems vs = Inr bs'"
    and bs: "bs = b @ bs'"
    by (auto split: sum.splits)
  from "10.prems" bs have d: "drop off buf = b @ bs' @ suf" by simp
  have v: "decodeValueWithSize buf off = Inr (v, length b)"
    using "10.IH"(1) [OF _ b d] "10.prems"(1) by simp
  have d': "drop (off + length b) buf = bs' @ suf"
    using d by (rule drop_append_next)
  have "decodeArrayItems buf (off + length b) (length vs) (acc @ [v]) =
          Inr ((acc @ [v]) @ vs, off + length b + length bs')"
    using "10.IH"(2) [OF b _ bs' d'] "10.prems"(1) by simp
  then show ?case
    using v bs by (simp add: decodeArrayItems_step add.assoc)
next
  case 11
  then show ?case by (auto simp: decodeObjectProps_done)
next
  case (12 p ps)
  then obtain keyLenBuf b bs' where
    kl: "writeUIntLE 2 (int (length (utf8 (fst p)))) = Inr keyLenBuf"
    and b: "encodeValue (snd p) = Inr b" and bs': "encodeProps ps = Inr bs'"
    and bs: "bs = keyLenBuf @ utf8 (fst p) @ b @ bs'"
    by (auto simp: Let_def split: sum.splits)
  from "12.prems" bs have d: "drop off buf = keyLenBuf @ utf8 (fst p) @ b @ bs' @ suf"
    by simp
  note r = read_written [OF kl d]
  have d2: "drop (off + 2) buf = utf8 (fst p) @ b @ bs' @ suf"
    using drop_append_next [OF d] r(2) by (simp add: ac_simps)
  have key: "toString buf (off + 2) (off + 2 + length (utf8 (fst p))) = fst p"
    using d2 by (rule toString_utf8) (simp add: utf8_def)
  have d3: "drop (off + 2 + length (utf8 (fst p))) buf = b @ bs' @ suf"
    using d2 by (rule drop_append_next)
  have v: "decodeValueWithSize buf (off + 2 + length (utf8 (fst p))) = Inr (snd p, length b)"
    using "12.IH"(1) [OF refl kl _ b d3] "12.prems"(1) by simp
  have d4: "drop (off + 2 + length (utf8 (fst p)) + length b) buf = bs' @ suf"
    using d3 by (rule drop_append_next)
  have fresh: "fst p \<notin> fst ` set accp"
    using "12.prems"(3) by auto
  have "key_order (map fst (accp @ [p]) @ map fst ps)"
    using "12.prems"(5) by simp
  then have "key_order (map fst (accp @ [p]))"
    by (rule key_order_prefix)
  moreover have "fst p \<noteq> ''__proto__''"
    using "12.prems"(4) by auto
  ultimately have upd: "assign (fst p) (snd p) accp = accp @ [p]"
    using assign_fresh [of "fst p" accp "snd p"] fresh by simp
  have disj: "fst ` set (accp @ [p]) \<inter> fst ` set ps = {}"
    using "12.prems"(2,3) by auto
  have ord: "key_order (map fst ((accp @ [p]) @ ps))"
    using "12.prems"(5) by simp
  have "decodeObjectProps buf (off + 2 + length (utf8 (fst p)) + length b) (length ps)
          (accp @ [p]) =
        Inr ((accp @ [p]) @ ps, off + 2 + length (utf8 (fst p)) + length b + length bs')"
    using "12.IH"(2) [OF refl kl b _ _ disj _ ord bs' d4] "12.prems"(1,2,4) by simp
  then show ?case
    using r v key upd bs by (simp add: decodeObjectProps_step add.assoc)
qed

lemma decodeValue_as_sized:
  "decodeValue buf =
     (case decodeValueWithSize buf 0 of Inl e \<Rightarrow> Inl e | Inr r \<Rightarrow> Inr (fst r))"
  by (subst decodeValueWithSize.simps)
     (simp add: decodeValue_def Let_def split: sum.splits)

lemma decodeValue_encodeValue:
  assumes "wf_value v" and "encodeValue v = Inr bs"
  shows "decodeValue bs = Inr v"
  using decode_encode(1) [OF assms, of 0 bs "[]"]
  by (simp add: decodeValue_as_sized)

text \<open>
  The two conditions on the keys of an object are needed. Of an object with an own
  property \<open>__proto__\<close> the decoder returns the other properties only, and an index key
  that the encoding holds after another key is moved in front of it.
\<close>

lemma proto_key_is_dropped:
  "encodeValue (VObject [(''__proto__'', VInt32 1), (''a'', VBool False)]) =
     Inr [6, 2, 0, 0, 0, 9, 0, 95, 95, 112, 114, 111, 116, 111, 95, 95, 2, 1, 0, 0, 0,
          1, 0, 97, 1, 0]
   \<and> decodeValue [6, 2, 0, 0, 0, 9, 0, 95, 95, 112, 114, 111, 116, 111, 95, 95, 2, 1, 0, 0, 0,
                   1, 0, 97, 1, 0] =
     Inr (VObject [(''a'', VBool False)])"
  by code_simp

lemma index_key_is_moved:
  "encodeValue (VObject [(''b'', VInt32 1), (''1'', VBool False)]) =
     Inr [6, 2, 0, 0, 0, 1, 0, 98, 2, 1, 0, 0, 0, 1, 0, 49, 1, 0]
   \<and> decodeValue [6, 2, 0, 0, 0, 1, 0, 98, 2, 1, 0, 0, 0, 1, 0, 49, 1, 0] =
     Inr (VObject [(''1'', VBool False), (''b'', VInt32 1)])"
  by code_simp

subsection \<open>Decoding an encoded table\<close>

lemma decoded_item:
  assumes "table_record r" and "0 \<le> or_zero (item_version r)"
    and "0 \<le> or_zero (item_timestamp r)" and "0 \<le> or_zero (item_expiration r)"
  shows "record_item (item_value r) (Num (int (nat (or_zero (item_version r)))))
           (Num (int (nat (or_zero (item_timestamp r)))))
           (if nat (or_zero (item_expiration r)) = 0 then Null
            else Num (int (nat (or_zero (item_expiration r)))))
         = none_as_null r"
proof -
  obtain ver where ver: "item_version r = Num ver"
    using assms(1) by (cases "item_version r") (auto simp: table_record_def)
  obtain ts where ts: "item_timestamp r = Num ts"
    using assms(1) by (cases "item_timestamp r") (auto simp: table_record_def)
  have ex: "item_expiration r = Null \<or> (\<exists>e. item_expiration r = Num e)"
    using assms(1) by (cases "item_expiration r") (auto simp: table_record_def)
  show ?thesis
    using assms ver ts ex
    by (cases r) (auto simp: record_item_def none_as_null_def table_record_def)
qed

lemma readRecords_encodeRecords:
  assumes "\<forall>e \<in> set T. table_record (snd e)" and "distinct (map fst T)"
    and "fst ` set acc \<inter> fst ` set T = {}"
    and "encodeRecords T = Inr body" and "drop off buf = body @ suf"
  shows "readRecords now buf (length T) off acc = Inr (acc @ decoded_table now T)"
  using assms
proof (induction T arbitrary: acc body off)
  case Nil
  then show ?case by (simp add: decoded_table_def)
next
  case (Cons entry T)
  let ?r = "snd entry"
  let ?key = "utf8 (fst entry)"
  from Cons.prems(4) obtain vb kl vl ver ts ex chunks where
    vb: "encodeValue (item_value ?r) = Inr vb"
    and kl: "writeUIntLE 2 (int (length ?key)) = Inr kl"
    and vl: "writeUIntLE 4 (int (length vb)) = Inr vl"
    and ver: "writeUIntLE 4 (or_zero (item_version ?r)) = Inr ver"
    and ts: "writeUIntLE 8 (or_zero (item_timestamp ?r)) = Inr ts"
    and ex: "writeUIntLE 8 (or_zero (item_expiration ?r)) = Inr ex"
    and chunks: "encodeRecords T = Inr chunks"
    and body: "body = kl @ vl @ ver @ ts @ ex @ ?key @ vb @ chunks"
    by (auto simp: Let_def split: sum.splits)
  have rec: "table_record ?r" using Cons.prems(1) by simp
  have d0: "drop off buf = kl @ vl @ ver @ ts @ ex @ ?key @ vb @ chunks @ suf"
    using Cons.prems(5) body by simp
  note r0 = read_written [OF kl d0]
  have d2: "drop (off + 2) buf = vl @ ver @ ts @ ex @ ?key @ vb @ chunks @ suf"
    using drop_append_next [OF d0] r0(2) by (simp add: ac_simps)
  note r2 = read_written [OF vl d2]
  have d6: "drop (off + 6) buf = ver @ ts @ ex @ ?key @ vb @ chunks @ suf"
    using drop_append_next [OF d2] r2(2) by (simp add: ac_simps)
  note r6 = read_written [OF ver d6]
  have d10: "drop (off + 10) buf = ts @ ex @ ?key @ vb @ chunks @ suf"
    using drop_append_next [OF d6] r6(2) by (simp add: ac_simps)
  note r10 = read_written [OF ts d10]
  have d18: "drop (off + 18) buf = ex @ ?key @ vb @ chunks @ suf"
    using drop_append_next [OF d10] r10(2) by (simp add: ac_simps)
  note r18 = read_written [OF ex d18]
  have d26: "drop (off + 26) buf = ?key @ vb @ chunks @ suf"
    using drop_append_next [OF d18] r18(2) by (simp add: ac_simps)
  have dv: "drop (off + 26 + length ?key) buf = vb @ chunks @ suf"
    using d26 by (rule drop_append_next)
  have dn: "drop (off + 26 + length ?key + length vb) buf = chunks @ suf"
    using dv by (rule drop_append_next)
  have "length (drop off buf) \<ge> 26 + length ?key + length vb"
    using d0 r0(2) r2(2) r6(2) r10(2) r18(2) by simp
  then have fits: "off + 26 + length ?key + length vb \<le> length buf"
    by simp
  have key: "toString buf (off + 26) (off + 26 + length ?key) = fst entry"
    using d26 by (rule toString_utf8) (simp add: utf8_def)
  have val: "slice buf (off + 26 + length ?key) (off + 26 + length ?key + length vb) = vb"
    using dv by (rule slice_exact) simp
  have dec: "decodeValue vb = Inr (item_value ?r)"
    using rec vb by (intro decodeValue_encodeValue) (simp_all add: table_record_def)
  have exp: "(nat (or_zero (item_expiration ?r)) \<noteq> 0
              \<and> int (nat (or_zero (item_expiration ?r))) \<le> now) = elapsed now ?r"
    using r18(3) by (auto simp: elapsed_def)
  have rest_keys: "distinct (map fst T)" and rest_rec: "\<forall>e \<in> set T. table_record (snd e)"
    using Cons.prems(1,2) by simp_all
  have step: "readRecords now buf (Suc (length T)) off acc =
      (if elapsed now ?r
       then readRecords now buf (length T) (off + 26 + length ?key + length vb) acc
       else readRecords now buf (length T) (off + 26 + length ?key + length vb)
              (AList.update (fst entry) (none_as_null ?r) acc))"
    using r0(1) r2(1) r6(1) r10(1) r18(1) fits key val dec exp
      decoded_item [OF rec r6(3) r10(3) r18(3)]
    by (simp add: Let_def)
  show ?case
  proof (cases "elapsed now ?r")
    case True
    have "fst ` set acc \<inter> fst ` set T = {}"
      using Cons.prems(3) by auto
    from Cons.IH [OF rest_rec rest_keys this chunks dn] True step
    show ?thesis by (simp add: decoded_table_def)
  next
    case False
    have fresh: "fst entry \<notin> fst ` set acc"
      using Cons.prems(3) by auto
    have upd: "AList.update (fst entry) (none_as_null ?r) acc
                 = acc @ [(fst entry, none_as_null ?r)]"
      using fresh by (rule update_fresh)
    have "fst ` set (acc @ [(fst entry, none_as_null ?r)]) \<inter> fst ` set T = {}"
      using Cons.prems(2,3) by auto
    from Cons.IH [OF rest_rec rest_keys this chunks dn] False step upd
    show ?thesis by (simp add: decoded_table_def)
  qed
qed

text \<open>
  C5, as the code has it. For a table map of records with pairwise distinct keys, whose
  values are values of the grammar (no object among them with an own property named
  \<open>__proto__\<close>), that \<open>toBinaryBuffer\<close> encodes without a range error, decoding the encoding
  at clock \<open>now\<close> returns the records that have not elapsed, in the same order, each
  unchanged except that an expiration of \<open>0\<close> is read back as \<open>null\<close>.
\<close>

theorem table_file_round_trip:
  assumes "distinct (map fst T)" and "\<forall>e \<in> set T. table_record (snd e)"
    and "toBinaryBuffer T = Inr buf"
  shows "readTableFromBinaryBuffer now buf = Inr (decoded_table now T)"
proof -
  from assms(3) obtain cnt chunks where
    cnt: "writeUIntLE 4 (int (length T)) = Inr cnt"
    and chunks: "encodeRecords T = Inr chunks"
    and buf: "buf = [0x4d, 0x44, 0x42, 0x01] @ cnt @ chunks"
    by (auto simp: toBinaryBuffer_def split: sum.splits)
  have d4: "drop 4 buf = cnt @ chunks @ []"
    by (simp add: buf)
  note r = read_written [OF cnt d4]
  have d8: "drop 8 buf = chunks @ []"
    using drop_append_next [OF d4] r(2) by (simp add: ac_simps)
  have "readRecords now buf (length T) 8 [] = Inr ([] @ decoded_table now T)"
    using assms(2,1) _ chunks d8 by (rule readRecords_encodeRecords) simp
  moreover have "length buf \<ge> 8"
    using r(2) by (simp add: buf)
  moreover have "element buf 0 = Some 0x4d" "element buf 1 = Some 0x44"
    "element buf 2 = Some 0x42" "element buf 3 = Some 0x01"
    by (simp_all add: buf element_def)
  ultimately show ?thesis
    using r(1) by (simp add: readTableFromBinaryBuffer_def)
qed

lemma example_table_encoded: "toBinaryBuffer example_table = Inr example_table_file"
  by code_simp

theorem table_file_round_trip_witness:
  "distinct (map fst example_table)
   \<and> table_record (record_item (VArray [VBool True, VString ''x'']) (Num 1) (Num 5) Null)
   \<and> table_record (record_item example_object (Num 2) (Num 6) (Num 7))
   \<and> toBinaryBuffer example_table = Inr example_table_file
   \<and> readTableFromBinaryBuffer 10 example_table_file =
       Inr [(''a'', record_item (VArray [VBool True, VString ''x'']) (Num 1) (Num 5) Null)]
   \<and> readTableFromBinaryBuffer 3 example_table_file = Inr example_table"
proof -
  have d: "distinct (map fst example_table)"
    by (simp add: example_table_def)
  have a: "table_record (record_item (VArray [VBool True, VString ''x'']) (Num 1) (Num 5) Null)"
    by (simp add: table_record_def record_item_def)
  have b: "table_record (record_item example_object (Num 2) (Num 6) (Num 7))"
    by code_simp
  have r: "\<forall>e \<in> set example_table. table_record (snd e)"
    using a b by (simp add: example_table_def)
  have "decoded_table 10 example_table =
          [(''a'', record_item (VArray [VBool True, VString ''x'']) (Num 1) (Num 5) Null)]"
    by (simp add: decoded_table_def example_table_def elapsed_def none_as_null_def
          record_item_def)
  moreover have "decoded_table 3 example_table = example_table"
    by (simp add: decoded_table_def example_table_def elapsed_def none_as_null_def
          record_item_def)
  ultimately show ?thesis
    using table_file_round_trip [OF d r example_table_encoded, of 10]
      table_file_round_trip [OF d r example_table_encoded, of 3]
      d a b example_table_encoded
    by simp
qed

text \<open>
  C5 as the specification states it, that decoding returns the unexpired records of \<open>T\<close>
  themselves, fails for a record whose expiration is \<open>0\<close>: it is kept, and its expiration
  comes back as \<open>null\<close>.
\<close>

theorem table_file_round_trip_counterexample:
  "toBinaryBuffer [(''k'', record_item VNull (Num 1) (Num 1) (Num 0))] =
     Inr [77, 68, 66, 1, 1, 0, 0, 0,
          1, 0, 1, 0, 0, 0, 1, 0, 0, 0, 1, 0, 0, 0, 0, 0, 0, 0, 0, 0, 0, 0, 0, 0, 0, 0,
          107, 0]
   \<and> readTableFromBinaryBuffer 10
       [77, 68, 66, 1, 1, 0, 0, 0,
        1, 0, 1, 0, 0, 0, 1, 0, 0, 0, 1, 0, 0, 0, 0, 0, 0, 0, 0, 0, 0, 0, 0, 0, 0, 0,
        107, 0] =
     Inr [(''k'', record_item VNull (Num 1) (Num 1) Null)]
   \<and> [(''k'', record_item VNull (Num 1) (Num 1) Null)] \<noteq>
     [(''k'', record_item VNull (Num 1) (Num 1) (Num 0))]"
  by code_simp

subsection \<open>Unknown type bytes\<close>

lemma decodeValue_unknown:
  assumes "buf \<noteq> []" and "0x07 < buf ! 0"
  shows "decodeValue buf = Inr VNull"
  using assms dvs_unknown [of 0 buf] by (simp add: decodeValue_as_sized)

lemma readRecords_Suc_cases:
  assumes "readRecords now buf (Suc n) off T = Inr T'"
  shows "T' = T \<or> (\<exists>off'. readRecords now buf n off' T = Inr T')
       \<or> (\<exists>off' k v. readRecords now buf n off' (AList.update k v T) = Inr T')"
  using assms
  by (simp add: Let_def split: if_splits sum.splits) blast+

lemma readRecords_keeps_keys:
  "readRecords now buf n off T = Inr T' \<Longrightarrow> fst ` set T \<subseteq> fst ` set T'"
proof (induction n arbitrary: off T)
  case 0
  then show ?case by simp
next
  case (Suc n)
  have upd: "fst ` set T \<subseteq> fst ` set (AList.update k v T)" for k v
    by (auto simp: AList.dom_update)
  from readRecords_Suc_cases [OF Suc.prems] show ?case
  proof (elim disjE exE)
    assume "T' = T" then show ?thesis by simp
  next
    fix off' assume "readRecords now buf n off' T = Inr T'"
    then show ?thesis by (rule Suc.IH)
  next
    fix off' k v assume "readRecords now buf n off' (AList.update k v T) = Inr T'"
    then have "fst ` set (AList.update k v T) \<subseteq> fst ` set T'" by (rule Suc.IH)
    with upd [of k v] show ?thesis by blast
  qed
qed

text \<open>
  C6, as the code has it. An unknown type byte does not abort the record. A value whose
  first byte is above \<open>0x07\<close> decodes to \<open>null\<close>, the loop stores the record under its key
  with that value and goes on, and the key is in the decoded table; inside an array or an
  object an unknown byte is read as \<open>null\<close> of size 1.
\<close>

theorem unknown_tag_record_is_kept:
  assumes fit: "offset + 26 + keyLength + valueLength \<le> length buf"
    and kl: "readUIntLE 2 buf offset = Inr keyLength"
    and vl: "readUIntLE 4 buf (offset + 2) = Inr valueLength"
    and ver: "readUIntLE 4 buf (offset + 6) = Inr version"
    and ts: "readUIntLE 8 buf (offset + 10) = Inr timestamp"
    and ex: "readUIntLE 8 buf (offset + 18) = Inr expiration"
    and live: "expiration = 0 \<or> now < int expiration"
    and nonempty: "0 < valueLength"
    and tag: "0x07 < buf ! (offset + 26 + keyLength)"
    and fin: "readRecords now buf (Suc remaining) offset tableData = Inr T'"
  shows "decodeValue (slice buf (offset + 26 + keyLength) (offset + 26 + keyLength + valueLength))
           = Inr VNull
       \<and> readRecords now buf (Suc remaining) offset tableData =
           readRecords now buf remaining (offset + 26 + keyLength + valueLength)
             (AList.update (toString buf (offset + 26) (offset + 26 + keyLength))
                (record_item VNull (Num (int version)) (Num (int timestamp))
                   (if expiration = 0 then Null else Num (int expiration)))
                tableData)
       \<and> toString buf (offset + 26) (offset + 26 + keyLength) \<in> fst ` set T'
       \<and> (\<forall>b off. off < length b \<and> 0x07 < b ! off \<longrightarrow>
             decodeValueWithSize b off = Inr (VNull, 1))"
proof -
  let ?start = "offset + 26 + keyLength"
  let ?vb = "slice buf ?start (?start + valueLength)"
  let ?key = "toString buf (offset + 26) (offset + 26 + keyLength)"
  let ?rec = "record_item VNull (Num (int version)) (Num (int timestamp))
                (if expiration = 0 then Null else Num (int expiration))"
  have len: "length ?vb = valueLength"
    using fit by (simp add: slice_def)
  then have ne: "?vb \<noteq> []"
    using nonempty by auto
  have "?vb ! 0 = buf ! ?start"
    using fit nonempty by (simp add: slice_def)
  then have dec: "decodeValue ?vb = Inr VNull"
    using ne tag by (simp add: decodeValue_unknown)
  have step: "readRecords now buf (Suc remaining) offset tableData =
      readRecords now buf remaining (?start + valueLength) (AList.update ?key ?rec tableData)"
    using fit kl vl ver ts ex live dec by (auto simp: Let_def)
  have "fst ` set (AList.update ?key ?rec tableData) \<subseteq> fst ` set T'"
    using fin step readRecords_keeps_keys by simp
  then have "?key \<in> fst ` set T'"
    by (auto simp: AList.dom_update)
  with dec step show ?thesis
    by (simp add: dvs_unknown)
qed

lemma unknown_tag_file_read:
  "readRecords 10 unknown_tag_file (Suc 0) 8 [] =
     Inr [(''k'', record_item VNull (Num 1) (Num 1) Null)]"
  by code_simp

theorem unknown_tag_record_is_kept_witness:
  "8 + 26 + 1 + 1 \<le> length unknown_tag_file
   \<and> readUIntLE 2 unknown_tag_file 8 = Inr 1
   \<and> readUIntLE 4 unknown_tag_file (8 + 2) = Inr 1
   \<and> readUIntLE 4 unknown_tag_file (8 + 6) = Inr 1
   \<and> readUIntLE 8 unknown_tag_file (8 + 10) = Inr 1
   \<and> readUIntLE 8 unknown_tag_file (8 + 18) = Inr 0
   \<and> 0x07 < unknown_tag_file ! (8 + 26 + 1)
   \<and> readRecords 10 unknown_tag_file (Suc 0) 8 [] =
       Inr [(''k'', record_item VNull (Num 1) (Num 1) Null)]
   \<and> decodeValue (slice unknown_tag_file (8 + 26 + 1) (8 + 26 + 1 + 1)) = Inr VNull
   \<and> toString unknown_tag_file (8 + 26) (8 + 26 + 1) \<in>
       fst ` set [(''k'', record_item VNull (Num 1) (Num 1) Null)]"
proof -
  have fit: "8 + 26 + 1 + 1 \<le> length unknown_tag_file"
    by (simp add: unknown_tag_file_def)
  have kl: "readUIntLE 2 unknown_tag_file 8 = Inr 1"
    and vl: "readUIntLE 4 unknown_tag_file (8 + 2) = Inr 1"
    and ver: "readUIntLE 4 unknown_tag_file (8 + 6) = Inr 1"
    and ts: "readUIntLE 8 unknown_tag_file (8 + 10) = Inr 1"
    and ex: "readUIntLE 8 unknown_tag_file (8 + 18) = Inr 0"
    by (simp_all add: readUIntLE_def unknown_tag_file_def)
  have live: "(0 :: nat) = 0 \<or> 10 < int 0" by simp
  have nonempty: "(0 :: nat) < 1" by simp
  have tag: "0x07 < unknown_tag_file ! (8 + 26 + 1)"
    by (simp add: unknown_tag_file_def)
  show ?thesis
    using unknown_tag_record_is_kept
      [OF fit kl vl ver ts ex live nonempty tag unknown_tag_file_read]
      fit kl vl ver ts ex tag unknown_tag_file_read
    by simp
qed

text \<open>
  C6 as the specification states it fails on a file whose only record has the value byte \<open>0x09\<close>: the
  record is in the decoded table, with the value \<open>null\<close>.
\<close>

theorem unknown_tag_counterexample:
  "readTableFromBinaryBuffer 10
     [77, 68, 66, 1, 1, 0, 0, 0,
      1, 0, 1, 0, 0, 0, 1, 0, 0, 0, 1, 0, 0, 0, 0, 0, 0, 0, 0, 0, 0, 0, 0, 0, 0, 0,
      107, 9] =
   Inr [(''k'', record_item VNull (Num 1) (Num 1) Null)]"
  by code_simp

section \<open>Tables: loading, reading and writing\<close>

subsection \<open>Loading a table file that fails the header check\<close>

lemma four_heads: "4 \<le> length bs \<Longrightarrow> \<exists>a b c d rest. bs = a # b # c # d # rest"
  by (auto simp: numeral_eq_Suc Suc_le_length_iff)

lemma bad_magic_rejected:
  assumes "8 \<le> length buf" and "take 4 buf \<noteq> [0x4d, 0x44, 0x42, 0x01]"
  shows "readTableFromBinaryBuffer now buf = Inl InvalidTableFileFormat"
proof -
  from assms(1) obtain a b c d rest where buf: "buf = a # b # c # d # rest"
    using four_heads [of buf] by auto
  with assms(2) have "a \<noteq> 0x4d \<or> b \<noteq> 0x44 \<or> c \<noteq> 0x42 \<or> d \<noteq> 0x01"
    by auto
  then show ?thesis
    by (auto simp: readTableFromBinaryBuffer_def element_def buf)
qed

text \<open>
  C3, as the code has it. For a table that is not loaded and has a file: a file shorter
  than 8 bytes is replaced by an empty table and no error is raised; a file of 8 bytes or
  more whose (decrypted) image fails the header check makes the load fail with the
  decoder's error, which reaches the caller; in particular, with no encryption key, so
  does every file of 8 bytes or more that does not start with the magic bytes.
\<close>

theorem loadTable_header_check:
  assumes "\<not> hasTable d tableName" and "map_of fs tableName = Some file"
  shows "(length file < 8 \<longrightarrow>
            loadTable C now fs tableName d = Inr (AList.update tableName [] d))
       \<and> (8 \<le> length file
            \<and> readTableFromBinaryBuffer now (fileBuffer C file) = Inl InvalidTableFileFormat \<longrightarrow>
            loadTable C now fs tableName d = Inl InvalidTableFileFormat)
       \<and> (8 \<le> length file \<and> encryptionKey C = None
            \<and> take 4 file \<noteq> [0x4d, 0x44, 0x42, 0x01] \<longrightarrow>
            loadTable C now fs tableName d = Inl InvalidTableFileFormat)"
proof (intro conjI impI)
  assume "length file < 8"
  with assms show "loadTable C now fs tableName d = Inr (AList.update tableName [] d)"
    by (simp add: loadTable_def createTable_def)
next
  assume "8 \<le> length file
          \<and> readTableFromBinaryBuffer now (fileBuffer C file) = Inl InvalidTableFileFormat"
  with assms show "loadTable C now fs tableName d = Inl InvalidTableFileFormat"
    by (simp add: loadTable_def)
next
  assume a: "8 \<le> length file \<and> encryptionKey C = None
             \<and> take 4 file \<noteq> [0x4d, 0x44, 0x42, 0x01]"
  then have "fileBuffer C file = file"
    by (simp add: fileBuffer_def)
  with a have "readTableFromBinaryBuffer now (fileBuffer C file) = Inl InvalidTableFileFormat"
    by (simp add: bad_magic_rejected)
  with a assms show "loadTable C now fs tableName d = Inl InvalidTableFileFormat"
    by (simp add: loadTable_def)
qed

theorem loadTable_header_check_witness:
  "\<not> hasTable [] ''users''
   \<and> map_of [(''users'', invalid_file)] ''users'' = Some invalid_file
   \<and> map_of [(''users'', [77, 68 :: byte])] ''users'' = Some [77, 68]
   \<and> 8 \<le> length invalid_file
   \<and> encryptionKey no_crypto = None
   \<and> take 4 invalid_file \<noteq> [0x4d, 0x44, 0x42, 0x01]
   \<and> loadTable no_crypto 10 [(''users'', invalid_file)] ''users'' [] = Inl InvalidTableFileFormat
   \<and> loadTable no_crypto 10 [(''users'', [77, 68])] ''users'' [] = Inr [(''users'', [])]"
proof -
  have h: "\<not> hasTable [] ''users''" by (simp add: hasTable_def)
  have f: "map_of [(''users'', invalid_file)] ''users'' = Some invalid_file" by simp
  have g: "map_of [(''users'', [77, 68 :: byte])] ''users'' = Some [77, 68]" by simp
  have l: "8 \<le> length invalid_file" by (simp add: invalid_file_def)
  have k: "encryptionKey no_crypto = None" by (simp add: no_crypto_def)
  have m: "take 4 invalid_file \<noteq> [0x4d, 0x44, 0x42, 0x01]" by (simp add: invalid_file_def)
  show ?thesis
    using loadTable_header_check [OF h f, of no_crypto 10]
      loadTable_header_check [OF h g, of no_crypto 10] h f g l k m
    by simp
qed

text \<open>
  C3 as the specification states it fails on that file: the load does not reinitialise the table, it
  fails with the parse error.
\<close>

theorem loadTable_counterexample:
  "loadTable no_crypto 10 [(''users'', invalid_file)] ''users'' [] = Inl InvalidTableFileFormat"
  by code_simp

subsection \<open>Basic facts about reads and the log\<close>

lemma getTable_update:
  "getTable (AList.update t tbl d) t' = (if t' = t then tbl else getTable d t')"
  by (simp add: getTable_def AList.update_conv')

lemma stored_deleteItem:
  "stored (deleteItem t k s) t' k' = (if t' = t \<and> k' = k then None else stored s t' k')"
proof (cases "map_of (data s) t")
  case None
  then show ?thesis
    by (simp add: stored_def deleteItem_def getTable_def)
next
  case (Some tbl)
  then have "data (deleteItem t k s) = AList.update t (AList.delete k tbl) (data s)"
    by (simp add: deleteItem_def)
  then show ?thesis
    using Some by (simp add: stored_def getTable_update AList.delete_conv') (simp add: getTable_def)
qed

lemma deleteItem_rest [simp]:
  "wal (deleteItem t k s) = wal s" "writeBuffer (deleteItem t k s) = writeBuffer s"
  "files (deleteItem t k s) = files s"
  "maxWriteOpsBeforeFlush (deleteItem t k s) = maxWriteOpsBeforeFlush s"
  by (simp_all add: deleteItem_def split: option.splits)

lemma getItem_rest [simp]:
  "wal (snd (getItem now t k s)) = wal s"
  "writeBuffer (snd (getItem now t k s)) = writeBuffer s"
  "files (snd (getItem now t k s)) = files s"
  "maxWriteOpsBeforeFlush (snd (getItem now t k s)) = maxWriteOpsBeforeFlush s"
  by (simp_all add: getItem_def split: option.splits)

lemma stored_setItem: "stored (setItem t k it s) t k = Some it"
proof -
  let ?d = "createTable t (data s)"
  obtain tbl where tbl: "map_of ?d t = Some tbl"
    by (cases "map_of (data s) t")
       (auto simp: createTable_def hasTable_def AList.update_conv')
  then have "data (setItem t k it s) = AList.update t (AList.update k it tbl) ?d"
    by (simp add: setItem_def Let_def)
  then show ?thesis
    by (simp add: stored_def getTable_update AList.update_conv')
qed

lemma setItem_rest [simp]:
  "wal (setItem t k it s) = wal s" "writeBuffer (setItem t k it s) = writeBuffer s"
  "files (setItem t k it s) = files s"
  by (simp_all add: setItem_def Let_def split: option.splits)

lemma getItemVersion_facts:
  "snd (getItemVersion now t k ev s) = snd (getItem now t k s)"
  "currentVersion (fst (getItemVersion now t k ev s)) = current_version now s t k"
  "newVersion (fst (getItemVersion now t k ev s)) = js_succ (current_version now s t k)"
  "success (fst (getItemVersion now t k ev s)) =
     (case ev of None \<Rightarrow> True | Some e \<Rightarrow> \<not> strict_neq (current_version now s t k) (Num e))"
  by (auto simp: getItemVersion_def getItem_def current_version_def record_item_def Let_def
           split: option.splits prod.splits)

lemma flushWAL_ok:
  assumes "walFile w \<noteq> None"
  shows "\<exists>w'. flushWAL w = Inr w' \<and> wal_contents w' = wal_contents w \<and> walFile w' \<noteq> None"
  using assms by (auto simp: flushWAL_def wal_contents_def Let_def)

lemma appendToWAL_ok:
  assumes "walFile w \<noteq> None"
  shows "\<exists>w'. appendToWAL B now t opn k v ver ex w = Inr w'
            \<and> wal_contents w' = wal_contents w @ logEntry B now t opn k v ver ex"
proof -
  let ?w1 = "w\<lparr>walBuffer := walBuffer w @ [logEntry B now t opn k v ver ex]\<rparr>"
  have c1: "wal_contents ?w1 = wal_contents w @ logEntry B now t opn k v ver ex"
    by (simp add: wal_contents_def)
  have f1: "walFile ?w1 \<noteq> None" using assms by simp
  obtain w2 where w2: "(if length (walBuffer ?w1) \<ge> maxWalBufferEntries ?w1 then flushWAL ?w1
                        else Inr ?w1) = Inr w2"
    and c2: "wal_contents w2 = wal_contents ?w1" and f2: "walFile w2 \<noteq> None"
    using flushWAL_ok [OF f1] f1 by (cases "length (walBuffer ?w1) \<ge> maxWalBufferEntries ?w1") auto
  obtain w3 where w3: "(if sum_list (map length (walBuffer w2)) \<ge> maxWalBufferSize w2
                        then flushWAL w2 else Inr w2) = Inr w3"
    and c3: "wal_contents w3 = wal_contents w2"
    using flushWAL_ok [OF f2]
    by (cases "sum_list (map length (walBuffer w2)) \<ge> maxWalBufferSize w2") auto
  have "appendToWAL B now t opn k v ver ex w = Inr w3"
    using assms w2 w3 by (auto simp: appendToWAL_def Let_def)
  with c1 c2 c3 show ?thesis by simp
qed

lemma addToWriteBuffer_wal [simp]: "wal (addToWriteBuffer now t k s) = wal s"
  by (simp add: addToWriteBuffer_def Let_def split: prod.splits)
     (metis getItem_rest(1) snd_conv)

subsection \<open>No validation of keys\<close>





subsection \<open>A write with a wrong expected version\<close>


lemma getItem_unchanged:
  assumes "stored s t k = None \<or> (\<exists>it. stored s t k = Some it \<and> \<not> expired now it)"
  shows "snd (getItem now t k s) = s"
  using assms by (auto simp: getItem_def)







subsection \<open>Versions and expiry of records as \<open>writeItem\<close> stores them\<close>

lemma stored_writeBuffer_update [simp]: "stored (s\<lparr>writeBuffer := b\<rparr>) t k = stored s t k"
  by (simp add: stored_def)

lemma stored_wal_update [simp]: "stored (s\<lparr>wal := w\<rparr>) t k = stored s t k"
  by (simp add: stored_def)

lemma addToWriteBuffer_stored:
  assumes "stored s t k = Some it" and "\<not> expired now it"
  shows "stored (addToWriteBuffer now t k s) t k = Some it"
proof -
  have "snd (getItem now t k s) = s"
    using assms by (auto simp: getItem_unchanged)
  then show ?thesis
    using assms(1) by (simp add: addToWriteBuffer_def Let_def split: prod.splits) (metis snd_conv)
qed

text \<open>
  On items of the shape \<open>{value, v, t, x}\<close> the write path counts versions: a write with
  no expected version stores the current version plus one (1 for a key that is absent or
  expired), together with the value written.
\<close>

lemma writeItem_next_version:
  assumes "w_expectedVersion operation = None" and "walFile (wal s) \<noteq> None"
    and "current_version now s (w_tableName operation) (w_key operation) = Num n"
    and "w_expiration operation = 0 \<or> now \<le> w_expiration operation"
  shows "\<exists>s'. writeItem B C now operation False s = Inr (True, s')
          \<and> stored s' (w_tableName operation) (w_key operation) =
              Some (written_item (w_value operation) (Num (n + 1)) (Num now)
                      (Num (w_expiration operation)))"
proof -
  let ?t = "w_tableName operation" and ?k = "w_key operation"
  let ?new = "written_item (w_value operation) (Num (n + 1)) (Num now)
                (Num (w_expiration operation))"
  obtain r s1 where g: "getItemVersion now ?t ?k None s = (r, s1)"
    by (cases "getItemVersion now ?t ?k None s")
  have r: "success r" "newVersion r = Num (n + 1)" and s1: "s1 = snd (getItem now ?t ?k s)"
    using getItemVersion_facts [of now ?t ?k None s] g assms(3) by simp_all
  have "walFile (wal s1) \<noteq> None"
    using assms(2) s1 by simp
  then obtain w' where w': "appendToWAL B now ?t ''W'' ?k (w_value operation) (Num (n + 1))
                              (w_expiration operation) (wal s1) = Inr w'"
    using appendToWAL_ok by blast
  let ?s2 = "setItem ?t ?k ?new (s1\<lparr>wal := w'\<rparr>)"
  have run: "writeItem B C now operation False s = Inr (True, addToWriteBuffer now ?t ?k ?s2)"
    using assms(1) g r w' by (simp add: writeItem_def Let_def)
  have "\<not> expired now ?new"
    using assms(4) by (auto simp: expired_def written_item_def)
  then have "stored (addToWriteBuffer now ?t ?k ?s2) ?t ?k = Some ?new"
    by (intro addToWriteBuffer_stored) (simp_all add: stored_setItem)
  with run show ?thesis by blast
qed

text \<open>On such items a read applies the expiry: an expired item is deleted and not returned.\<close>

lemma getItem_expired_written:
  assumes "stored s t k = Some it" and "item_x it = Num e" and "e \<noteq> 0" and "e < now"
  shows "getItem now t k s = (None, deleteItem t k s)"
    and "stored (deleteItem t k s) t k = None"
  using assms by (simp_all add: getItem_def expired_def stored_deleteItem)

subsection \<open>Records that come from a table file or from the WAL\<close>

text \<open>
  C1 at a record loaded from a table file (and at one replayed from the WAL): the stored
  version 1 is read as \<open>undefined\<close>, and the next write stores and returns the version
  \<open>NaN\<close> instead of 2.
\<close>

theorem loaded_record_version:
  "toBinaryBuffer [(''k'', record_item VNull (Num 1) (Num 1) Null)] = Inr one_record_file
   \<and> loadTable no_crypto 10 [(''users'', one_record_file)] ''users'' [] =
       Inr [(''users'', [(''k'', record_item VNull (Num 1) (Num 1) Null)])]
   \<and> fst (getItem 10 ''users'' ''k''
            (users_db [(''k'', record_item VNull (Num 1) (Num 1) Null)] [] [])) =
       Some (record_item VNull Undefined Undefined Undefined)
   \<and> writeItem example_builtins no_crypto 10
        \<lparr>w_tableName = ''users'', w_key = ''k'', w_value = VBool True,
         w_expectedVersion = None, w_expiration = 0\<rparr> False
        (users_db [(''k'', record_item VNull (Num 1) (Num 1) Null)] [] []) =
       Inr (True,
            users_db [(''k'', written_item (VBool True) NaN (Num 10) (Num 0))]
              [''10 W users v:NaN x:0 k true'' @ [CHR 0x0A]]
              [(''users'', ''k'', Some (record_item (VBool True) NaN (Num 10) (Num 0)))])
   \<and> fst (getItem 11 ''users'' ''k''
            (users_db [(''k'', written_item (VBool True) NaN (Num 10) (Num 0))]
               [''10 W users v:NaN x:0 k true'' @ [CHR 0x0A]]
               [(''users'', ''k'', Some (record_item (VBool True) NaN (Num 10) (Num 0)))])) =
       Some (record_item (VBool True) NaN (Num 10) (Num 0))
   \<and> fst (getItem 10 ''users'' ''k1''
            (setItem ''users'' ''k1'' (record_item (VBool True) (Num 1) (Num 10) (Num 0))
               empty_db)) =
       Some (record_item (VBool True) Undefined Undefined Undefined)"
  by code_simp

text \<open>
  C2 at a record loaded from a table file (and at one replayed from the WAL): the record
  expires at 20, is loaded at 10, and a read at 30 returns it and leaves it in the table.
\<close>

theorem loaded_record_expiry:
  "loadTable no_crypto 10 [(''users'', expiring_record_file)] ''users'' [] =
       Inr [(''users'', [(''k'', record_item VNull (Num 1) (Num 1) (Num 20))])]
   \<and> getItem 30 ''users'' ''k''
        (users_db [(''k'', record_item VNull (Num 1) (Num 1) (Num 20))] [] []) =
       (Some (record_item VNull Undefined Undefined Undefined),
        users_db [(''k'', record_item VNull (Num 1) (Num 1) (Num 20))] [] [])
   \<and> fst (getItem 30 ''users'' ''k1''
            (setItem ''users'' ''k1'' (record_item (VBool True) (Num 1) (Num 10) (Num 20))
               empty_db)) =
       Some (record_item (VBool True) Undefined Undefined Undefined)"
  by code_simp

end
